theory Spec2Isabelle
  imports Main "HOL-Library.Word"
begin

section \<open>Errors\<close>

text \<open>
  \<open>CHECK_RET\<close> prints its message and ends the process with \<open>std::exit\<close>;
  \<open>ThreadPool::enqueue\<close> throws \<open>std::runtime_error\<close>. Both are values here.
\<close>

datatype error = Fatal string | RuntimeError string

section \<open>ConcurrentHashMap (datastore.cpp)\<close>

text \<open>
  \<open>kvStore_\<close> is a \<open>std::unordered_map<std::string, std::string>\<close>. Each member
  function holds \<open>mtx_\<close> for its whole body, so each one is a single step on the map.
\<close>

type_synonym store = "string \<rightharpoonup> string"

definition put :: "store \<Rightarrow> string \<Rightarrow> string \<Rightarrow> store" where
  "put st key v = st(key \<mapsto> v)"

text \<open>\<open>get\<close> returns the flag and the contents of \<open>outVal\<close> after the call.\<close>

definition get :: "store \<Rightarrow> string \<Rightarrow> string \<Rightarrow> bool \<times> string" where
  "get st key outVal = (case st key of Some v \<Rightarrow> (True, v) | None \<Rightarrow> (False, outVal))"

text \<open>\<open>unordered_map::erase(key)\<close> returns the number of elements it removed.\<close>

definition erase :: "store \<Rightarrow> string \<Rightarrow> nat \<times> store" where
  "erase st key = (if st key = None then (0, st) else (1, st(key := None)))"

definition remove :: "store \<Rightarrow> string \<Rightarrow> bool \<times> store" where
  "remove st key = (case erase st key of (n, st') \<Rightarrow> (n > 0, st'))"

datatype kv_op = Put string string | Remove string

fun apply_op :: "kv_op \<Rightarrow> store \<Rightarrow> store" where
  "apply_op (Put k v) st = put st k v"
| "apply_op (Remove k) st = snd (remove st k)"

definition apply_ops :: "kv_op list \<Rightarrow> store \<Rightarrow> store" where
  "apply_ops ops st = fold apply_op ops st"

section \<open>Formatted input (\<open>operator>>\<close> on \<open>std::string\<close>)\<close>

text \<open>
  \<open>WriteAheadLog::replay\<close> and \<open>DistributedNode::handleClient\<close> read their tokens
  with \<open>stream >> str\<close>. In the classic locale \<open>isspace\<close> holds of space, tab, line
  feed, vertical tab, form feed and carriage return.
\<close>

definition isspace :: "char \<Rightarrow> bool" where
  "isspace c \<longleftrightarrow> c = CHR 0x20 \<or> c = CHR 0x09 \<or> c = CHR 0x0A \<or> c = CHR 0x0B
     \<or> c = CHR 0x0C \<or> c = CHR 0x0D"

text \<open>An input stream: the characters not yet read, and its \<open>failbit\<close>.\<close>

record istream =
  unread :: string
  failbit :: bool

definition open_stream :: "string \<Rightarrow> istream" where
  "open_stream s = \<lparr>unread = s, failbit = False\<rparr>"

text \<open>
  \<open>is >> str\<close>: on a stream that has already failed nothing happens. Otherwise leading
  white space is skipped; at the end of the input the extraction fails, \<open>failbit\<close> is set
  and \<open>str\<close> keeps its old contents; else \<open>str\<close> becomes the characters up to the
  next white space or the end of the input.
\<close>

definition extract_string :: "istream \<Rightarrow> string \<Rightarrow> istream \<times> string" where
  "extract_string s str =
     (if failbit s then (s, str)
      else let r = dropWhile isspace (unread s) in
        if r = [] then (\<lparr>unread = [], failbit = True\<rparr>, str)
        else (\<lparr>unread = dropWhile (\<lambda>c. \<not> isspace c) r, failbit = False\<rparr>,
              takeWhile (\<lambda>c. \<not> isspace c) r))"

section \<open>WriteAheadLog (datastore.cpp)\<close>

text \<open>
  The log is opened in append mode and flushed after every record, so the log is the
  contents of its file. \<open>logPut\<close> and \<open>logRemove\<close> return the file after the write.
\<close>

definition logPut :: "string \<Rightarrow> string \<Rightarrow> string \<Rightarrow> string" where
  "logPut file key v = file @ ''PUT '' @ key @ '' '' @ v @ [CHR 0x0A]"

definition logRemove :: "string \<Rightarrow> string \<Rightarrow> string" where
  "logRemove file key = file @ ''REMOVE '' @ key @ [CHR 0x0A]"

text \<open>
  The loop of \<open>replay\<close>: \<open>cmd\<close> lives across the iterations, \<open>key\<close> and \<open>value\<close> are
  fresh empty strings in each one, and the results of reading them are not tested.
\<close>

function replay_loop :: "istream \<Rightarrow> string \<Rightarrow> store \<Rightarrow> store" where
  "replay_loop s cmd st =
     (let r1 = extract_string s cmd in
      if failbit (fst r1) then st
      else if snd r1 = ''PUT'' then
        (let r2 = extract_string (fst r1) [];
             r3 = extract_string (fst r2) []
         in replay_loop (fst r3) (snd r1) (put st (snd r2) (snd r3)))
      else if snd r1 = ''REMOVE'' then
        (let r2 = extract_string (fst r1) []
         in replay_loop (fst r2) (snd r1) (snd (remove st (snd r2))))
      else replay_loop (fst r1) (snd r1) st)"
  by pat_completeness auto

lemma extract_string_unread_le: "length (unread (fst (extract_string s str))) \<le> length (unread s)"
  by (auto simp: extract_string_def Let_def
      intro: le_trans [OF length_dropWhile_le] length_dropWhile_le)

lemma extract_string_unread_less:
  assumes "\<not> failbit (fst (extract_string s str))"
  shows "length (unread (fst (extract_string s str))) < length (unread s)"
proof -
  let ?r = "dropWhile isspace (unread s)"
  from assms have nf: "\<not> failbit s" and ne: "?r \<noteq> []"
    by (auto simp: extract_string_def Let_def split: if_splits)
  from ne have "\<not> isspace (hd ?r)" by (rule hd_dropWhile)
  with ne have "dropWhile (\<lambda>c. \<not> isspace c) ?r = dropWhile (\<lambda>c. \<not> isspace c) (tl ?r)"
    by (cases ?r) auto
  then have "length (dropWhile (\<lambda>c. \<not> isspace c) ?r) \<le> length (tl ?r)"
    using length_dropWhile_le [of "\<lambda>c. \<not> isspace c" "tl ?r"] by simp
  also from ne have "\<dots> < length ?r" by (cases ?r) auto
  also have "\<dots> \<le> length (unread s)" by (rule length_dropWhile_le)
  finally have "length (dropWhile (\<lambda>c. \<not> isspace c) ?r) < length (unread s)" .
  moreover have "unread (fst (extract_string s str)) = dropWhile (\<lambda>c. \<not> isspace c) ?r"
    using nf ne unfolding extract_string_def Let_def by (simp only: if_False fst_conv istream.simps)
  ultimately show ?thesis by simp
qed

termination replay_loop
proof (relation "measure (\<lambda>(s, cmd, st). length (unread s))", goal_cases)
  case 1
  show ?case by simp
next
  case (2 s cmd st r1 r2 r3)
  have "length (unread (fst r3)) \<le> length (unread (fst r2))"
    using 2 by (simp add: extract_string_unread_le)
  also have "\<dots> \<le> length (unread (fst r1))"
    using 2 by (simp add: extract_string_unread_le)
  also have "\<dots> < length (unread s)"
    using 2 by (simp add: extract_string_unread_less)
  finally show ?case by simp
next
  case (3 s cmd st r1 r2)
  have "length (unread (fst r2)) \<le> length (unread (fst r1))"
    using 3 by (simp add: extract_string_unread_le)
  also have "\<dots> < length (unread s)"
    using 3 by (simp add: extract_string_unread_less)
  finally show ?case by simp
next
  case (4 s cmd st r1)
  then show ?case by (simp add: extract_string_unread_less)
qed

text \<open>
  \<open>replay\<close> opens the file by name; \<open>None\<close> is a file that cannot be opened, which
  \<open>CHECK_RET\<close> turns into the end of the process.
\<close>

definition replay :: "string \<Rightarrow> string option \<Rightarrow> store \<Rightarrow> error + store" where
  "replay filename file st =
     (case file of
        None \<Rightarrow> Inl (Fatal (''Failed to open WAL file for replay: '' @ filename))
      | Some text \<Rightarrow> Inr (replay_loop (open_stream text) [] st))"

text \<open>Logging a run of operations, each by the call the node makes for it.\<close>

fun log_op :: "kv_op \<Rightarrow> string \<Rightarrow> string" where
  "log_op (Put k v) file = logPut file k v"
| "log_op (Remove k) file = logRemove file k"

definition log_ops :: "kv_op list \<Rightarrow> string \<Rightarrow> string" where
  "log_ops ops file = fold log_op ops file"


declare replay_loop.simps [simp del]

section \<open>Token view of a text\<close>

text \<open>
  The white-space-delimited tokens of a text, in order: what successive extractions from
  a stream over the text deliver until one fails.
\<close>

function tokens :: "string \<Rightarrow> string list" where
  "tokens s =
     (let r = dropWhile isspace s in
      if r = [] then []
      else takeWhile (\<lambda>c. \<not> isspace c) r # tokens (dropWhile (\<lambda>c. \<not> isspace c) r))"
  by pat_completeness auto

lemma drop_token_shorter:
  assumes "dropWhile isspace s \<noteq> []"
  shows "length (dropWhile (\<lambda>c. \<not> isspace c) (dropWhile isspace s)) < length s"
proof -
  let ?r = "dropWhile isspace s"
  from assms have "\<not> isspace (hd ?r)" by (rule hd_dropWhile)
  with assms have "dropWhile (\<lambda>c. \<not> isspace c) ?r = dropWhile (\<lambda>c. \<not> isspace c) (tl ?r)"
    by (cases ?r) auto
  then have "length (dropWhile (\<lambda>c. \<not> isspace c) ?r) \<le> length (tl ?r)"
    using length_dropWhile_le [of "\<lambda>c. \<not> isspace c" "tl ?r"] by simp
  also from assms have "\<dots> < length ?r" by (cases ?r) auto
  also have "\<dots> \<le> length s" by (rule length_dropWhile_le)
  finally show ?thesis .
qed

termination tokens
  by (relation "measure length") (simp_all add: drop_token_shorter)

declare tokens.simps [simp del]

text \<open>The \<open>i\<close>-th token of a list, or the empty string when there is none.\<close>

definition arg :: "nat \<Rightarrow> string list \<Rightarrow> string" where
  "arg i ts = (if i < length ts then ts ! i else [])"

text \<open>
  What the loop of \<open>replay\<close> does, seen on the token list of the file: a \<open>PUT\<close> takes
  the next two tokens, a \<open>REMOVE\<close> the next one, any other token is skipped, and a
  token that is missing at the end of the file is the empty string.
\<close>

fun replay_tokens :: "string list \<Rightarrow> store \<Rightarrow> store" where
  "replay_tokens [] st = st"
| "replay_tokens (c # ts) st =
     (if c = ''PUT'' then replay_tokens (drop 2 ts) (put st (arg 0 ts) (arg 1 ts))
      else if c = ''REMOVE'' then replay_tokens (drop 1 ts) (snd (remove st (arg 0 ts)))
      else replay_tokens ts st)"

text \<open>A string that reads back as one token: not empty and free of white space.\<close>

definition valid_token :: "string \<Rightarrow> bool" where
  "valid_token t \<longleftrightarrow> t \<noteq> [] \<and> (\<forall>c \<in> set t. \<not> isspace c)"

fun valid_op :: "kv_op \<Rightarrow> bool" where
  "valid_op (Put k v) \<longleftrightarrow> valid_token k \<and> valid_token v"
| "valid_op (Remove k) \<longleftrightarrow> valid_token k"

text \<open>The tokens of a complete log record.\<close>

fun op_tokens :: "kv_op \<Rightarrow> string list" where
  "op_tokens (Put k v) = [''PUT'', k, v]"
| "op_tokens (Remove k) = [''REMOVE'', k]"

section \<open>DistributedNode (distributed_node.cpp)\<close>

text \<open>
  The node owns one store and one log. The listener thread handles one connection at a
  time, so a connection is one step on the node.
\<close>

record node =
  dataStore :: store
  wal :: string

definition node_put :: "node \<Rightarrow> string \<Rightarrow> string \<Rightarrow> node" where
  "node_put n key v = n\<lparr>dataStore := put (dataStore n) key v, wal := logPut (wal n) key v\<rparr>"

definition node_get :: "node \<Rightarrow> string \<Rightarrow> string \<Rightarrow> bool \<times> string" where
  "node_get n key outVal = get (dataStore n) key outVal"

definition removeKey :: "node \<Rightarrow> string \<Rightarrow> node" where
  "removeKey n key =
     n\<lparr>dataStore := snd (remove (dataStore n) key), wal := logRemove (wal n) key\<rparr>"

text \<open>What the handler does on the client socket, in order.\<close>

datatype sock_event = Send string | Close

text \<open>
  \<open>handleClient\<close>: \<open>received\<close> is what \<open>recv\<close> delivered (at most 1023 bytes), and
  \<open>bytesRead\<close> is its length; an error or a closed peer delivers nothing.
\<close>

definition handleClient :: "node \<Rightarrow> string \<Rightarrow> node \<times> sock_event list" where
  "handleClient n received =
     (if length received > 0 then
        (let iss = open_stream received;
             r1 = extract_string iss [];
             cmd = snd r1
         in if cmd = ''PUT'' then
              (let r2 = extract_string (fst r1) [];
                   r3 = extract_string (fst r2) []
               in (node_put n (snd r2) (snd r3), [Close]))
            else if cmd = ''REMOVE'' then
              (let r2 = extract_string (fst r1) []
               in (removeKey n (snd r2), [Close]))
            else if cmd = ''GET'' then
              (let r2 = extract_string (fst r1) [];
                   g = node_get n (snd r2) []
               in if fst g then (n, [Send (''VALUE '' @ snd g @ [CHR 0x0A]), Close])
                  else (n, [Send (''NOT_FOUND'' @ [CHR 0x0A]), Close]))
            else (n, [Close]))
      else (n, [Close]))"

section \<open>ConsistentHashRing (datastore.cpp)\<close>

text \<open>
  \<open>ring_\<close> is a \<open>std::map<size_t, std::string>\<close>: its entries, in ascending key order.
  \<open>std::hash<std::string>\<close> is fixed by the C++ library, not by this program; it is the
  parameter \<open>H\<close> of the ring's operations.
\<close>

type_synonym size_t = "64 word"

type_synonym ring = "(size_t \<times> string) list"

text \<open>\<open>std::to_string\<close> of an \<open>int\<close>: its decimal digits, after a minus sign if negative.\<close>

definition digit_char :: "nat \<Rightarrow> char" where
  "digit_char d = char_of (48 + d)"

function digits :: "nat \<Rightarrow> string" where
  "digits n = (if n < 10 then [digit_char n] else digits (n div 10) @ [digit_char (n mod 10)])"
  by pat_completeness auto

termination digits
  by (relation "measure id") simp_all

declare digits.simps [simp del]

definition to_string :: "int \<Rightarrow> string" where
  "to_string i = (if i < 0 then CHR ''-'' # digits (nat (- i)) else digits (nat i))"

definition replica :: "string \<Rightarrow> int \<Rightarrow> string" where
  "replica nodeName i = nodeName @ ''#'' @ to_string i"

text \<open>\<open>ring_[k] = v\<close>: a new entry at its place in the order, or a new value for the key.\<close>

fun map_assign :: "size_t \<Rightarrow> string \<Rightarrow> ring \<Rightarrow> ring" where
  "map_assign k v [] = [(k, v)]"
| "map_assign k v (p # r) =
     (if k < fst p then (k, v) # p # r
      else if k = fst p then (k, v) # r
      else p # map_assign k v r)"

definition map_erase :: "size_t \<Rightarrow> ring \<Rightarrow> ring" where
  "map_erase k r = filter (\<lambda>p. fst p \<noteq> k) r"

text \<open>
  \<open>lower_bound\<close> returns an iterator: here the entries from the first one whose key is
  not less than \<open>k\<close> on, and the empty list for \<open>end()\<close>.
\<close>

definition lower_bound :: "size_t \<Rightarrow> ring \<Rightarrow> ring" where
  "lower_bound k r = dropWhile (\<lambda>p. fst p < k) r"

definition addNode :: "int \<Rightarrow> (string \<Rightarrow> size_t) \<Rightarrow> string \<Rightarrow> ring \<Rightarrow> ring" where
  "addNode numReplicas H nodeName r =
     fold (\<lambda>i. map_assign (H (replica nodeName i)) nodeName) [0..numReplicas - 1] r"

definition removeNode :: "int \<Rightarrow> (string \<Rightarrow> size_t) \<Rightarrow> string \<Rightarrow> ring \<Rightarrow> ring" where
  "removeNode numReplicas H nodeName r =
     fold (\<lambda>i. map_erase (H (replica nodeName i))) [0..numReplicas - 1] r"

definition getNode :: "(string \<Rightarrow> size_t) \<Rightarrow> ring \<Rightarrow> string \<Rightarrow> string" where
  "getNode H r key =
     (if r = [] then []
      else (case lower_bound (H key) r of
              [] \<Rightarrow> snd (hd r)
            | p # _ \<Rightarrow> snd p))"

text \<open>A run of membership changes on a ring.\<close>

datatype ring_op = AddNode string | RemoveNode string

fun ring_step :: "int \<Rightarrow> (string \<Rightarrow> size_t) \<Rightarrow> ring_op \<Rightarrow> ring \<Rightarrow> ring" where
  "ring_step R H (AddNode n) r = addNode R H n r"
| "ring_step R H (RemoveNode n) r = removeNode R H n r"

definition ring_run :: "int \<Rightarrow> (string \<Rightarrow> size_t) \<Rightarrow> ring_op list \<Rightarrow> ring \<Rightarrow> ring" where
  "ring_run R H ops r = fold (ring_step R H) ops r"

text \<open>The entries of a \<open>std::map\<close> are in strictly ascending key order.\<close>

definition ring_ok :: "ring \<Rightarrow> bool" where
  "ring_ok r \<longleftrightarrow> sorted_wrt (<) (map fst r)"

text \<open>
  The point that owns a hash value: the one with the least key not below the value, or,
  when every key is below it, the one with the least key of all.
\<close>

definition owner_point :: "ring \<Rightarrow> size_t \<Rightarrow> size_t \<times> string \<Rightarrow> bool" where
  "owner_point r h p \<longleftrightarrow>
     p \<in> set r \<and>
     (if \<exists>q \<in> set r. h \<le> fst q
      then h \<le> fst p \<and> (\<forall>q \<in> set r. h \<le> fst q \<longrightarrow> fst p \<le> fst q)
      else (\<forall>q \<in> set r. fst p \<le> fst q))"

text \<open>Every point of the ring sits at the hash of a replica name of the node it names.\<close>

definition points_of_nodes :: "int \<Rightarrow> (string \<Rightarrow> size_t) \<Rightarrow> ring \<Rightarrow> bool" where
  "points_of_nodes R H r \<longleftrightarrow>
     (\<forall>p \<in> set r. \<exists>i \<in> {0..<R}. fst p = H (replica (snd p) i))"

text \<open>Every point of the ring at the hash of a replica name of \<open>X\<close> names \<open>X\<close>.\<close>

definition own_points :: "int \<Rightarrow> (string \<Rightarrow> size_t) \<Rightarrow> string \<Rightarrow> ring \<Rightarrow> bool" where
  "own_points R H X r \<longleftrightarrow>
     (\<forall>p \<in> set r. fst p \<in> (\<lambda>i. H (replica X i)) ` {0..<R} \<longrightarrow> snd p = X)"

text \<open>The names of the nodes that a run of membership changes adds.\<close>

fun added_names :: "ring_op list \<Rightarrow> string list" where
  "added_names [] = []"
| "added_names (AddNode n # ops) = n # added_names ops"
| "added_names (RemoveNode n # ops) = added_names ops"

text \<open>
  No replica name of a node of the list, other than \<open>X\<close> itself, has the same hash as a
  replica name of \<open>X\<close>.
\<close>

definition no_collision_with :: "int \<Rightarrow> (string \<Rightarrow> size_t) \<Rightarrow> string \<Rightarrow> string list \<Rightarrow> bool" where
  "no_collision_with R H X names \<longleftrightarrow>
     (\<forall>m \<in> set names. \<forall>i \<in> {0..<R}. \<forall>j \<in> {0..<R}.
        H (replica X i) = H (replica m j) \<longrightarrow> m = X)"

text \<open>A hash function for worked examples: the length of the string.\<close>

definition example_hash :: "string \<Rightarrow> size_t" where
  "example_hash s = of_nat (length s)"

section \<open>The library's \<open>std::hash<std::string>\<close>\<close>

text \<open>
  The hash function is not code of this repository: the ring's operations take it as the
  parameter \<open>H\<close>. For worked examples on the function a build with the GNU C++ library
  on a 64-bit target runs, this is that library's \<open>std::hash<std::string>\<close>:
  \<open>std::_Hash_bytes(s.data(), s.length(), 0xc70f6907)\<close>, a Murmur hash over
  little-endian 8-byte blocks (\<open>hash_bytes.cc\<close>: \<open>shift_mix\<close>, \<open>load_bytes\<close>,
  \<open>unaligned_load\<close>, \<open>mul\<close>).
\<close>

unbundle bit_operations_syntax

definition shift_mix :: "size_t \<Rightarrow> size_t" where
  "shift_mix v = v XOR drop_bit 47 v"

definition mul :: size_t where
  "mul = push_bit 32 0xc6a4a793 + 0x5bd1e995"

text \<open>The bytes of a block as one integer, the first byte lowest.\<close>

fun load_bytes :: "string \<Rightarrow> size_t" where
  "load_bytes [] = 0"
| "load_bytes (c # cs) = of_char c + push_bit 8 (load_bytes cs)"

text \<open>The loop over the full blocks, then the step for the bytes left over, if any.\<close>

function hash_loop :: "size_t \<Rightarrow> string \<Rightarrow> size_t" where
  "hash_loop h s =
     (if 8 \<le> length s
      then hash_loop ((h XOR shift_mix (load_bytes (take 8 s) * mul) * mul) * mul) (drop 8 s)
      else if s \<noteq> [] then (h XOR load_bytes s) * mul
      else h)"
  by pat_completeness auto

termination hash_loop
  by (relation "measure (\<lambda>(h, s). length s)") simp_all

declare hash_loop.simps [simp del]

definition Hash_bytes :: "string \<Rightarrow> size_t \<Rightarrow> size_t" where
  "Hash_bytes s seed =
     (let h0 = seed XOR (of_nat (length s) * mul);
          h1 = hash_loop h0 s;
          h2 = shift_mix h1 * mul
      in shift_mix h2)"

definition std_hash :: "string \<Rightarrow> size_t" where
  "std_hash s = Hash_bytes s 0xc70f6907"

section \<open>LockFreeRingBuffer (concurrency.hpp)\<close>

text \<open>
  The buffer in the hands of one thread: each atomic load and store is then a plain read
  and write. A \<open>size_t\<close> is a natural number below \<open>2 ^ 64\<close>; sums and differences
  wrap around.
\<close>

definition size_t_add :: "nat \<Rightarrow> nat \<Rightarrow> nat" where
  "size_t_add a b = (a + b) mod 2 ^ 64"

definition size_t_sub :: "nat \<Rightarrow> nat \<Rightarrow> nat" where
  "size_t_sub a b = (a mod 2 ^ 64 + 2 ^ 64 - b mod 2 ^ 64) mod 2 ^ 64"

record 'a ring_buffer =
  buffer :: "'a list"
  head :: nat
  tail :: nat

text \<open>
  The constructor sets both indices to zero. The \<open>Size + 1\<close> slots of the array start
  with whatever a default-initialised \<open>T\<close> holds, here \<open>d\<close>.
\<close>

definition new_buffer :: "nat \<Rightarrow> 'a \<Rightarrow> 'a ring_buffer" where
  "new_buffer Size d = \<lparr>buffer = replicate (size_t_add Size 1) d, head = 0, tail = 0\<rparr>"

definition push :: "nat \<Rightarrow> 'a ring_buffer \<Rightarrow> 'a \<Rightarrow> bool \<times> 'a ring_buffer" where
  "push Size rb item =
     (let h = head rb;
          nextHead = size_t_add h 1 mod size_t_add Size 1
      in if nextHead = tail rb then (False, rb)
         else (True, rb\<lparr>buffer := (buffer rb)[h := item], head := nextHead\<rparr>))"

text \<open>\<open>pop\<close> returns the flag, the contents of \<open>item\<close> after the call, and the buffer.\<close>

definition pop :: "nat \<Rightarrow> 'a ring_buffer \<Rightarrow> 'a \<Rightarrow> bool \<times> 'a \<times> 'a ring_buffer" where
  "pop Size rb item =
     (let t = tail rb
      in if t = head rb then (False, item, rb)
         else (True, buffer rb ! t, rb\<lparr>tail := size_t_add t 1 mod size_t_add Size 1\<rparr>))"

definition buffer_size :: "nat \<Rightarrow> 'a ring_buffer \<Rightarrow> nat" where
  "buffer_size Size rb =
     (let h = head rb; t = tail rb
      in if h \<ge> t then size_t_sub h t
         else size_t_sub (size_t_add Size 1) (size_t_sub t h))"

text \<open>A run of calls by one thread, with the flag each call returned.\<close>

datatype 'a rb_op = Push 'a | Pop

fun run_ops :: "nat \<Rightarrow> 'a \<Rightarrow> 'a rb_op list \<Rightarrow> 'a ring_buffer \<Rightarrow> bool list \<times> 'a ring_buffer" where
  "run_ops Size d [] rb = ([], rb)"
| "run_ops Size d (Push x # ops) rb =
     (let r = push Size rb x; rest = run_ops Size d ops (snd r)
      in (fst r # fst rest, snd rest))"
| "run_ops Size d (Pop # ops) rb =
     (let r = pop Size rb d; rest = run_ops Size d ops (snd (snd r))
      in (fst r # fst rest, snd rest))"

fun is_push :: "'a rb_op \<Rightarrow> bool" where
  "is_push (Push x) = True"
| "is_push Pop = False"

text \<open>The numbers of pushes and of pops of a run that returned true.\<close>

definition pushes_ok :: "'a rb_op list \<Rightarrow> bool list \<Rightarrow> nat" where
  "pushes_ok ops oks = length (filter (\<lambda>(x, ok). is_push x \<and> ok) (zip ops oks))"

definition pops_ok :: "'a rb_op list \<Rightarrow> bool list \<Rightarrow> nat" where
  "pops_ok ops oks = length (filter (\<lambda>(x, ok). \<not> is_push x \<and> ok) (zip ops oks))"

text \<open>Both indices stay within the \<open>Size + 1\<close> slots of the array.\<close>

definition rb_ok :: "nat \<Rightarrow> 'a ring_buffer \<Rightarrow> bool" where
  "rb_ok Size rb \<longleftrightarrow> head rb \<le> Size \<and> tail rb \<le> Size \<and> length (buffer rb) = Size + 1"

section \<open>ThreadPool (concurrency.hpp, concurrency.cpp)\<close>

text \<open>
  The pool's queue and stop flag are only touched under \<open>queueMutex_\<close>, so the locked
  block of \<open>enqueue\<close> and the locked block of the destructor are single steps on them.
  A task is the packaged callable; what it computes plays no part here.
\<close>

record 'task thread_pool =
  tasks :: "'task list"
  stop :: bool

text \<open>The constructor: an empty queue, \<open>stop_(false)\<close>.\<close>

definition new_pool :: "'task thread_pool" where
  "new_pool = \<lparr>tasks = [], stop = False\<rparr>"

text \<open>The first block of the destructor sets \<open>stop_\<close>.\<close>

definition begin_shutdown :: "'task thread_pool \<Rightarrow> 'task thread_pool" where
  "begin_shutdown p = p\<lparr>stop := True\<rparr>"

text \<open>
  \<open>enqueue\<close>: under the lock, a stopped pool throws \<open>std::runtime_error\<close>; otherwise
  the task goes to the back of the queue.
\<close>

definition enqueue :: "'task thread_pool \<Rightarrow> 'task \<Rightarrow> error + 'task thread_pool" where
  "enqueue p task =
     (if stop p then Inl (RuntimeError ''enqueue on stopped ThreadPool'')
      else Inr (p\<lparr>tasks := tasks p @ [task]\<rparr>))"

section \<open>Properties of the store\<close>

lemma get_put_same: "get (put st k v) k out = (True, v)"
  by (simp add: get_def put_def)

lemma get_put_other: "k' \<noteq> k \<Longrightarrow> get (put st k v) k' out = get st k' out"
  by (simp add: get_def put_def)

lemma remove_result: "fst (remove st k) = fst (get st k out)"
  by (simp add: remove_def erase_def get_def split: option.splits)

lemma get_after_remove: "get (snd (remove st k)) k out = (False, out)"
  by (simp add: remove_def erase_def get_def)

lemma snd_remove: "snd (remove st k) = st(k := None)"
  by (auto simp: remove_def erase_def)

lemma apply_ops_Nil: "apply_ops [] st = st"
  by (simp add: apply_ops_def)

lemma apply_ops_Cons: "apply_ops (x # xs) st = apply_ops xs (apply_op x st)"
  by (simp add: apply_ops_def)

lemma apply_ops_append: "apply_ops (xs @ ys) st = apply_ops ys (apply_ops xs st)"
  by (simp add: apply_ops_def)

lemma apply_ops_snoc: "apply_ops (xs @ [x]) st = apply_op x (apply_ops xs st)"
  by (simp add: apply_ops_def)

text \<open>
  The history of a key: it is absent after a run from the empty store exactly when every
  \<open>put\<close> of it is followed by a later \<open>remove\<close> of it.
\<close>

lemma absent_iff_history:
  "(apply_ops ops Map.empty k = None) \<longleftrightarrow>
   (\<forall>i < length ops. (\<exists>v. ops ! i = Put k v) \<longrightarrow>
        (\<exists>j. i < j \<and> j < length ops \<and> ops ! j = Remove k))"
proof (induction ops rule: rev_induct)
  case Nil
  show ?case by (simp add: apply_ops_Nil)
next
  case (snoc x xs)
  let ?P = "\<lambda>l. \<forall>i < length l. (\<exists>v. l ! i = Put k v) \<longrightarrow>
        (\<exists>j. i < j \<and> j < length l \<and> l ! j = Remove k)"
  show ?case
  proof (cases "x = Remove k")
    case True
    have "?P (xs @ [x])"
    proof (intro allI impI)
      fix i assume "i < length (xs @ [x])" and "\<exists>v. (xs @ [x]) ! i = Put k v"
      with True have "i < length xs" by (cases "i = length xs") auto
      then show "\<exists>j. i < j \<and> j < length (xs @ [x]) \<and> (xs @ [x]) ! j = Remove k"
        using True by (intro exI [of _ "length xs"]) simp
    qed
    moreover have "apply_ops (xs @ [x]) Map.empty k = None"
      using True by (simp add: apply_ops_snoc snd_remove)
    ultimately show ?thesis by blast
  next
    case notrem: False
    show ?thesis
    proof (cases "\<exists>v. x = Put k v")
      case True
      then obtain v where x: "x = Put k v" by blast
      have "\<not> ?P (xs @ [x])"
      proof
        assume "?P (xs @ [x])"
        then have "\<exists>j. length xs < j \<and> j < length (xs @ [x]) \<and> (xs @ [x]) ! j = Remove k"
          using x by (auto dest!: spec [of _ "length xs"])
        then show False by auto
      qed
      moreover have "apply_ops (xs @ [x]) Map.empty k \<noteq> None"
        using x by (simp add: apply_ops_snoc put_def)
      ultimately show ?thesis by blast
    next
      case False
      have same: "apply_ops (xs @ [x]) Map.empty k = apply_ops xs Map.empty k"
        using False notrem by (cases x) (auto simp: apply_ops_snoc put_def snd_remove)
      have "?P (xs @ [x]) \<longleftrightarrow> ?P xs"
      proof
        assume h: "?P (xs @ [x])"
        show "?P xs"
        proof (intro allI impI)
          fix i assume i: "i < length xs" and p: "\<exists>v. xs ! i = Put k v"
          from h i p obtain j where j: "i < j" "j < length (xs @ [x])" "(xs @ [x]) ! j = Remove k"
            by (auto simp: nth_append dest!: spec [of _ i])
          with notrem have "j < length xs" by (cases "j = length xs") auto
          with j show "\<exists>j. i < j \<and> j < length xs \<and> xs ! j = Remove k"
            by (auto simp: nth_append)
        qed
      next
        assume h: "?P xs"
        show "?P (xs @ [x])"
        proof (intro allI impI)
          fix i assume i: "i < length (xs @ [x])" and p: "\<exists>v. (xs @ [x]) ! i = Put k v"
          with False have i': "i < length xs" by (cases "i = length xs") auto
          with p have "\<exists>v. xs ! i = Put k v" by (simp add: nth_append)
          with h i' obtain j where "i < j" "j < length xs" "xs ! j = Remove k" by blast
          then show "\<exists>j. i < j \<and> j < length (xs @ [x]) \<and> (xs @ [x]) ! j = Remove k"
            by (intro exI [of _ j]) (simp add: nth_append)
        qed
      qed
      with same snoc.IH show ?thesis by presburger
    qed
  qed
qed

text \<open>
  Claim C7. \<open>put\<close> is an upsert: a following \<open>get\<close> of the same key finds the value and
  other keys are untouched. After any run of operations from the empty store, \<open>get\<close> of
  a key reports absence exactly when every \<open>put\<close> of that key is followed by a later
  \<open>remove\<close> of it (the key was never put, or was removed since its last put). \<open>remove\<close>
  returns true exactly when \<open>get\<close> would have found the key just before, and afterwards
  \<open>get\<close> does not find it.
\<close>

theorem store_put_get_remove:
  "get (put st k v) k out = (True, v)
   \<and> (\<forall>k'. k' \<noteq> k \<longrightarrow> get (put st k v) k' out = get st k' out)
   \<and> (fst (get (apply_ops ops Map.empty) k out) = False \<longleftrightarrow>
        (\<forall>i < length ops. (\<exists>v. ops ! i = Put k v) \<longrightarrow>
           (\<exists>j. i < j \<and> j < length ops \<and> ops ! j = Remove k)))
   \<and> (fst (remove st k) \<longleftrightarrow> fst (get st k out))
   \<and> get (snd (remove st k)) k out = (False, out)"
proof -
  have "fst (get (apply_ops ops Map.empty) k out) = False
          \<longleftrightarrow> apply_ops ops Map.empty k = None"
    by (simp add: get_def split: option.splits)
  then show ?thesis
    using absent_iff_history [of ops k]
    by (simp add: get_put_same get_put_other remove_result [of st k out] get_after_remove)
qed

theorem store_put_get_remove_witness:
  "get (put Map.empty ''A'' ''100'') ''A'' '''' = (True, ''100'')
   \<and> fst (get (apply_ops [Put ''A'' ''100'', Remove ''A''] Map.empty) ''A'' '''') = False
   \<and> fst (remove (put Map.empty ''A'' ''100'') ''A'')
   \<and> \<not> fst (remove Map.empty ''A'')
   \<and> get (snd (remove (put Map.empty ''A'' ''100'') ''A'')) ''A'' '''' = (False, '''')"
  using store_put_get_remove [of Map.empty "''A''" "''100''" "''''" "[Put ''A'' ''100'', Remove ''A'']"]
    store_put_get_remove [of Map.empty "''A''" "''100''" "''''" "[]"]
  by (simp add: apply_ops_def put_def get_def remove_def erase_def)


section \<open>Properties of the write-ahead log\<close>

lemma extract_string_failed: "failbit s \<Longrightarrow> extract_string s str = (s, str)"
  by (simp add: extract_string_def)

lemma extract_string_no_token:
  "\<not> failbit s \<Longrightarrow> tokens (unread s) = [] \<Longrightarrow>
   extract_string s str = (\<lparr>unread = [], failbit = True\<rparr>, str)"
  by (subst (asm) tokens.simps) (simp add: extract_string_def Let_def split: if_splits)

lemma extract_string_token:
  "\<not> failbit s \<Longrightarrow> tokens (unread s) = t # ts \<Longrightarrow>
   \<exists>s'. extract_string s str = (s', t) \<and> \<not> failbit s' \<and> tokens (unread s') = ts"
  by (subst (asm) tokens.simps) (simp add: extract_string_def Let_def split: if_splits)

lemma replay_loop_failed: "failbit s \<Longrightarrow> replay_loop s cmd st = st"
  by (subst replay_loop.simps) (simp add: extract_string_failed)

lemma replay_loop_no_token:
  "\<not> failbit s \<Longrightarrow> tokens (unread s) = [] \<Longrightarrow> replay_loop s cmd st = st"
  by (subst replay_loop.simps) (simp add: extract_string_no_token)


lemma replay_loop_tokens:
  "\<not> failbit s \<Longrightarrow> replay_loop s cmd st = replay_tokens (tokens (unread s)) st"
proof (induction "length (tokens (unread s))" arbitrary: s cmd st rule: less_induct)
  case less
  show ?case
  proof (cases "tokens (unread s)")
    case Nil
    with less.prems show ?thesis by (simp add: replay_loop_no_token)
  next
    case (Cons c ts)
    from extract_string_token [OF less.prems Cons, of cmd]
    obtain s1 where s1: "extract_string s cmd = (s1, c)" "\<not> failbit s1" "tokens (unread s1) = ts"
      by blast
    show ?thesis
    proof (cases "c = ''PUT''")
      case put: True
      show ?thesis
      proof (cases ts)
        case Nil
        with s1 have e2: "extract_string s1 [] = (\<lparr>unread = [], failbit = True\<rparr>, [])"
          by (simp add: extract_string_no_token)
        have "replay_loop s cmd st = put st [] []"
          using s1 e2 put
          by (subst replay_loop.simps) (simp add: extract_string_failed replay_loop_failed)
        with Cons Nil put show ?thesis by (simp add: arg_def)
      next
        case ts: (Cons k ts')
        from extract_string_token [OF s1(2), of k ts' "[]"] s1 ts
        obtain s2 where s2: "extract_string s1 [] = (s2, k)" "\<not> failbit s2"
          "tokens (unread s2) = ts'" by auto
        show ?thesis
        proof (cases ts')
          case Nil
          with s2 have e3: "extract_string s2 [] = (\<lparr>unread = [], failbit = True\<rparr>, [])"
            by (simp add: extract_string_no_token)
          have "replay_loop s cmd st = put st k []"
            using s1 s2 e3 put
            by (subst replay_loop.simps) (simp add: replay_loop_failed)
          with Cons ts Nil put show ?thesis by (simp add: arg_def)
        next
          case ts': (Cons v ts'')
          from extract_string_token [OF s2(2), of v ts'' "[]"] s2 ts'
          obtain s3 where s3: "extract_string s2 [] = (s3, v)" "\<not> failbit s3"
            "tokens (unread s3) = ts''" by auto
          have "replay_loop s cmd st = replay_loop s3 c (put st k v)"
            using s1 s2 s3 put by (subst replay_loop.simps) simp
          also have "\<dots> = replay_tokens (tokens (unread s3)) (put st k v)"
            using s3 Cons ts ts' by (intro less.hyps) simp_all
          finally show ?thesis using Cons ts ts' s3 put by (simp add: arg_def)
        qed
      qed
    next
      case notput: False
      show ?thesis
      proof (cases "c = ''REMOVE''")
        case rem: True
        show ?thesis
        proof (cases ts)
          case Nil
          with s1 have e2: "extract_string s1 [] = (\<lparr>unread = [], failbit = True\<rparr>, [])"
            by (simp add: extract_string_no_token)
          have "replay_loop s cmd st = snd (remove st [])"
            using s1 e2 rem
            by (subst replay_loop.simps) (simp add: replay_loop_failed)
          with Cons Nil rem show ?thesis by (simp add: arg_def)
        next
          case ts: (Cons k ts')
          from extract_string_token [OF s1(2), of k ts' "[]"] s1 ts
          obtain s2 where s2: "extract_string s1 [] = (s2, k)" "\<not> failbit s2"
            "tokens (unread s2) = ts'" by auto
          have "replay_loop s cmd st = replay_loop s2 c (snd (remove st k))"
            using s1 s2 rem by (subst replay_loop.simps) simp
          also have "\<dots> = replay_tokens (tokens (unread s2)) (snd (remove st k))"
            using s2 Cons ts by (intro less.hyps) simp_all
          finally show ?thesis using Cons ts s2 rem by (simp add: arg_def)
        qed
      next
        case other: False
        have "replay_loop s cmd st = replay_loop s1 c st"
          using s1 notput other by (subst replay_loop.simps) simp
        also have "\<dots> = replay_tokens (tokens (unread s1)) st"
          using s1 Cons by (intro less.hyps) simp_all
        finally show ?thesis using Cons s1 notput other by simp
      qed
    qed
  qed
qed


lemma tokens_Nil: "tokens [] = []"
  by (subst tokens.simps) simp

lemma tokens_space: "isspace c \<Longrightarrow> tokens (c # s) = tokens s"
  by (subst tokens.simps, subst (2) tokens.simps) simp

lemma tokens_token_space:
  assumes "valid_token t" "isspace c"
  shows "tokens (t @ c # s) = t # tokens (c # s)"
proof -
  from assms have ne: "t \<noteq> []" and ns: "\<forall>x \<in> set t. \<not> isspace x"
    by (auto simp: valid_token_def)
  from ne ns have "\<not> isspace (hd t)" by (cases t) auto
  with ne have d: "dropWhile isspace (t @ c # s) = t @ c # s" by (cases t) auto
  from ns assms(2) have tk: "takeWhile (\<lambda>x. \<not> isspace x) (t @ c # s) = t"
    by simp
  from ns assms(2) have dr: "dropWhile (\<lambda>x. \<not> isspace x) (t @ c # s) = c # s"
    by simp
  show ?thesis
    using ne by (subst tokens.simps) (simp add: d tk dr Let_def)
qed

lemma isspace_space: "isspace CHR 0x20"
  by (simp add: isspace_def)

lemma isspace_newline: "isspace CHR 0x0A"
  by (simp add: isspace_def)

lemma valid_token_PUT: "valid_token ''PUT''"
  by (simp add: valid_token_def isspace_def)

lemma valid_token_REMOVE: "valid_token ''REMOVE''"
  by (simp add: valid_token_def isspace_def)

lemma tokens_record:
  "valid_op x \<Longrightarrow> tokens (log_op x [] @ s) = op_tokens x @ tokens s"
proof (cases x)
  case (Put k v)
  assume "valid_op x"
  with Put have k: "valid_token k" and v: "valid_token v" by simp_all
  have "tokens (''PUT'' @ CHR 0x20 # k @ CHR 0x20 # v @ CHR 0x0A # s)
      = ''PUT'' # tokens (CHR 0x20 # k @ CHR 0x20 # v @ CHR 0x0A # s)"
    by (rule tokens_token_space [OF valid_token_PUT isspace_space])
  also have "tokens (CHR 0x20 # k @ CHR 0x20 # v @ CHR 0x0A # s)
      = tokens (k @ CHR 0x20 # v @ CHR 0x0A # s)"
    by (rule tokens_space [OF isspace_space])
  also have "\<dots> = k # tokens (CHR 0x20 # v @ CHR 0x0A # s)"
    by (rule tokens_token_space [OF k isspace_space])
  also have "tokens (CHR 0x20 # v @ CHR 0x0A # s) = tokens (v @ CHR 0x0A # s)"
    by (rule tokens_space [OF isspace_space])
  also have "\<dots> = v # tokens (CHR 0x0A # s)"
    by (rule tokens_token_space [OF v isspace_newline])
  also have "tokens (CHR 0x0A # s) = tokens s"
    by (rule tokens_space [OF isspace_newline])
  finally show ?thesis using Put by (simp add: logPut_def)
next
  case (Remove k)
  assume "valid_op x"
  with Remove have k: "valid_token k" by simp
  have "tokens (''REMOVE'' @ CHR 0x20 # k @ CHR 0x0A # s)
      = ''REMOVE'' # tokens (CHR 0x20 # k @ CHR 0x0A # s)"
    by (rule tokens_token_space [OF valid_token_REMOVE isspace_space])
  also have "tokens (CHR 0x20 # k @ CHR 0x0A # s) = tokens (k @ CHR 0x0A # s)"
    by (rule tokens_space [OF isspace_space])
  also have "\<dots> = k # tokens (CHR 0x0A # s)"
    by (rule tokens_token_space [OF k isspace_newline])
  also have "tokens (CHR 0x0A # s) = tokens s"
    by (rule tokens_space [OF isspace_newline])
  finally show ?thesis using Remove by (simp add: logRemove_def)
qed

lemma log_op_append: "log_op x f = f @ log_op x []"
  by (cases x) (simp_all add: logPut_def logRemove_def)

lemma log_ops_append: "log_ops ops f = f @ concat (map (\<lambda>x. log_op x []) ops)"
proof (induction ops arbitrary: f)
  case Nil
  show ?case by (simp add: log_ops_def)
next
  case (Cons x xs)
  have "log_ops (x # xs) f = log_ops xs (log_op x f)" by (simp add: log_ops_def)
  also have "\<dots> = log_op x f @ concat (map (\<lambda>x. log_op x []) xs)" by (rule Cons.IH)
  also have "log_op x f = f @ log_op x []" by (rule log_op_append)
  finally show ?case by simp
qed

lemma tokens_records:
  "\<forall>x \<in> set ops. valid_op x \<Longrightarrow>
   tokens (concat (map (\<lambda>x. log_op x []) ops) @ s) = concat (map op_tokens ops) @ tokens s"
  by (induction ops) (simp_all add: tokens_record)

lemma replay_tokens_record:
  "replay_tokens (op_tokens x @ ts) st = replay_tokens ts (apply_op x st)"
  by (cases x) (simp_all add: arg_def)

lemma replay_tokens_records:
  "replay_tokens (concat (map op_tokens ops) @ ts) st = replay_tokens ts (apply_ops ops st)"
  by (induction ops arbitrary: st) (simp_all add: replay_tokens_record apply_ops_Nil apply_ops_Cons)

lemma replay_as_tokens:
  "replay filename (Some text) st = Inr (replay_tokens (tokens text) st)"
  by (simp add: replay_def open_stream_def replay_loop_tokens)

text \<open>
  Claim C1 (as amended). When every key and every value of a run of operations is a
  non-empty string without white space, logging the run with \<open>logPut\<close> and
  \<open>logRemove\<close> into an empty file and replaying that file into a fresh store gives the
  same map as applying the run directly to a fresh store.
\<close>

theorem wal_round_trip:
  assumes "list_all valid_op ops"
  shows "replay filename (Some (log_ops ops [])) Map.empty = Inr (apply_ops ops Map.empty)"
proof -
  from assms have "\<forall>x \<in> set ops. valid_op x" by (simp add: list_all_iff)
  then have "tokens (log_ops ops []) = concat (map op_tokens ops)"
    using tokens_records [of ops "[]"] by (simp add: log_ops_append tokens_Nil)
  then show ?thesis
    using replay_tokens_records [of ops "[]" Map.empty] by (simp add: replay_as_tokens)
qed

theorem wal_round_trip_witness:
  "list_all valid_op [Put ''K1'' ''V1'', Remove ''K2'']
   \<and> replay ''test_wal.log'' (Some (log_ops [Put ''K1'' ''V1'', Remove ''K2''] [])) Map.empty
       = Inr (apply_ops [Put ''K1'' ''V1'', Remove ''K2''] Map.empty)"
proof -
  have v: "list_all valid_op [Put ''K1'' ''V1'', Remove ''K2'']"
    by (simp add: valid_token_def isspace_def)
  from wal_round_trip [OF v] v show ?thesis by blast
qed

text \<open>
  The claim as stated, for every key and value, fails: a key with a space in it is read
  back as two tokens.
\<close>

lemma log_key_with_space: "log_ops [Put ''a b'' ''c''] [] = ''PUT a b c'' @ [CHR 0x0A]"
  by (simp add: log_ops_def logPut_def)

lemma tokens_key_with_space: "tokens (''PUT a b c'' @ [CHR 0x0A]) = [''PUT'', ''a'', ''b'', ''c'']"
  by code_simp

theorem wal_round_trip_counterexample:
  "replay ''wal.log'' (Some (log_ops [Put ''a b'' ''c''] [])) Map.empty
     \<noteq> Inr (apply_ops [Put ''a b'' ''c''] Map.empty)"
proof -
  have "replay ''wal.log'' (Some (log_ops [Put ''a b'' ''c''] [])) Map.empty
      = Inr (put Map.empty ''a'' ''b'')"
    by (simp only: log_key_with_space replay_as_tokens tokens_key_with_space) (simp add: arg_def)
  moreover have "put Map.empty ''a'' ''b'' ''a'' \<noteq> apply_ops [Put ''a b'' ''c''] Map.empty ''a''"
    by (simp add: put_def apply_ops_def)
  ultimately show ?thesis by auto
qed


text \<open>
  Claim C2 (as amended). When the tokens of the file are those of complete records
  followed by a lone \<open>PUT\<close>, a \<open>PUT\<close> with its key only, or a lone \<open>REMOVE\<close>,
  \<open>replay\<close> applies the complete records in file order, then applies the last record
  with each missing argument read as the empty string, and returns normally.
\<close>

theorem replay_truncated_tail:
  "(tokens text = concat (map op_tokens recs) @ [''PUT''] \<longrightarrow>
      replay filename (Some text) st = Inr (put (apply_ops recs st) [] []))
   \<and> (tokens text = concat (map op_tokens recs) @ [''PUT'', k] \<longrightarrow>
      replay filename (Some text) st = Inr (put (apply_ops recs st) k []))
   \<and> (tokens text = concat (map op_tokens recs) @ [''REMOVE''] \<longrightarrow>
      replay filename (Some text) st = Inr (snd (remove (apply_ops recs st) [])))"
  by (simp add: replay_as_tokens replay_tokens_records arg_def)

lemma tokens_lone_put:
  "tokens (''PUT K1 V1'' @ [CHR 0x0A] @ ''PUT'') = concat (map op_tokens [Put ''K1'' ''V1'']) @ [''PUT'']"
  by code_simp

lemma tokens_put_without_value:
  "tokens (''PUT K1 V1'' @ [CHR 0x0A] @ ''PUT K2'')
     = concat (map op_tokens [Put ''K1'' ''V1'']) @ [''PUT'', ''K2'']"
  by code_simp

lemma tokens_lone_remove:
  "tokens (''PUT K1 V1'' @ [CHR 0x0A] @ ''REMOVE'')
     = concat (map op_tokens [Put ''K1'' ''V1'']) @ [''REMOVE'']"
  by code_simp

theorem replay_truncated_tail_witness:
  "replay ''wal.log'' (Some (''PUT K1 V1'' @ [CHR 0x0A] @ ''PUT'')) Map.empty
      = Inr (put (apply_ops [Put ''K1'' ''V1''] Map.empty) [] [])
   \<and> replay ''wal.log'' (Some (''PUT K1 V1'' @ [CHR 0x0A] @ ''PUT K2'')) Map.empty
      = Inr (put (apply_ops [Put ''K1'' ''V1''] Map.empty) ''K2'' [])
   \<and> replay ''wal.log'' (Some (''PUT K1 V1'' @ [CHR 0x0A] @ ''REMOVE'')) Map.empty
      = Inr (snd (remove (apply_ops [Put ''K1'' ''V1''] Map.empty) []))"
  using replay_truncated_tail [of "''PUT K1 V1'' @ [CHR 0x0A] @ ''PUT''" "[Put ''K1'' ''V1'']"
      "''wal.log''" Map.empty "''K2''"]
    replay_truncated_tail [of "''PUT K1 V1'' @ [CHR 0x0A] @ ''PUT K2''" "[Put ''K1'' ''V1'']"
      "''wal.log''" Map.empty "''K2''"]
    replay_truncated_tail [of "''PUT K1 V1'' @ [CHR 0x0A] @ ''REMOVE''" "[Put ''K1'' ''V1'']"
      "''wal.log''" Map.empty "''K2''"]
    tokens_lone_put tokens_put_without_value tokens_lone_remove
  by simp

text \<open>
  The claim as stated fails: the record cut short is applied, here as a \<open>put\<close> of the
  key with the empty value.
\<close>

lemma tokens_only_put_key: "tokens ''PUT k'' = concat (map op_tokens []) @ [''PUT'', ''k'']"
  by code_simp

theorem replay_truncated_tail_counterexample:
  "tokens ''PUT k'' = concat (map op_tokens []) @ [''PUT'', ''k'']
   \<and> replay ''wal.log'' (Some ''PUT k'') Map.empty \<noteq> Inr (apply_ops [] Map.empty)"
proof -
  have "replay ''wal.log'' (Some ''PUT k'') Map.empty = Inr (put Map.empty ''k'' [])"
    by (simp only: replay_as_tokens tokens_only_put_key) (simp add: arg_def)
  moreover have "put Map.empty ''k'' [] ''k'' \<noteq> apply_ops [] Map.empty ''k''"
    by (simp add: put_def apply_ops_def)
  ultimately show ?thesis using tokens_only_put_key by auto
qed


section \<open>Properties of the client handler\<close>

lemma extract_string_arg0:
  assumes "\<not> failbit s"
  shows "snd (extract_string s []) = arg 0 (tokens (unread s))"
proof (cases "tokens (unread s)")
  case Nil
  with assms show ?thesis by (simp add: extract_string_no_token arg_def)
next
  case (Cons t ts)
  from extract_string_token [OF assms Cons, of "[]"] Cons show ?thesis
    by (auto simp: arg_def)
qed

text \<open>The two arguments that follow a command token, as the handler reads them.\<close>

lemma extract_two_args:
  assumes "\<not> failbit s"
  shows "snd (extract_string s []) = arg 0 (tokens (unread s))
       \<and> snd (extract_string (fst (extract_string s [])) []) = arg 1 (tokens (unread s))"
proof (cases "tokens (unread s)")
  case Nil
  with assms have "extract_string s [] = (\<lparr>unread = [], failbit = True\<rparr>, [])"
    by (simp add: extract_string_no_token)
  with Nil show ?thesis by (simp add: extract_string_failed arg_def)
next
  case (Cons t ts)
  from extract_string_token [OF assms Cons, of "[]"]
  obtain s1 where s1: "extract_string s [] = (s1, t)" "\<not> failbit s1" "tokens (unread s1) = ts"
    by blast
  from extract_string_arg0 [OF s1(2)] s1 Cons show ?thesis
    by (simp add: arg_def)
qed

lemma handleClient_tokens:
  "handleClient n req =
     (case tokens req of
        [] \<Rightarrow> (n, [Close])
      | c # args \<Rightarrow>
          if c = ''PUT'' then (node_put n (arg 0 args) (arg 1 args), [Close])
          else if c = ''REMOVE'' then (removeKey n (arg 0 args), [Close])
          else if c = ''GET'' then
            (case dataStore n (arg 0 args) of
               Some v \<Rightarrow> (n, [Send (''VALUE '' @ v @ [CHR 0x0A]), Close])
             | None \<Rightarrow> (n, [Send (''NOT_FOUND'' @ [CHR 0x0A]), Close]))
          else (n, [Close]))"
proof (cases "tokens req")
  case Nil
  have "extract_string (open_stream req) [] = (\<lparr>unread = [], failbit = True\<rparr>, [])"
    using Nil by (simp add: extract_string_no_token open_stream_def)
  with Nil show ?thesis by (simp add: handleClient_def Let_def)
next
  case (Cons c args)
  then have ne: "req \<noteq> []" by (auto simp: tokens_Nil)
  from extract_string_token [of "open_stream req" c args "[]"] Cons
  obtain s1 where s1: "extract_string (open_stream req) [] = (s1, c)" "\<not> failbit s1"
    "tokens (unread s1) = args"
    by (auto simp: open_stream_def)
  from extract_two_args [OF s1(2)] s1(3)
  have a: "snd (extract_string s1 []) = arg 0 args"
    "snd (extract_string (fst (extract_string s1 [])) []) = arg 1 args" by simp_all
  show ?thesis
    using ne s1(1) a Cons
    by (simp add: handleClient_def Let_def node_get_def get_def split: option.splits)
qed

text \<open>
  Claim C6. For one received command, read as its white-space-delimited tokens: a leading
  \<open>GET\<close> sends \<open>VALUE <value>\<close> and a line feed when the key (the next token, or the
  empty string when there is none) is in the store and \<open>NOT_FOUND\<close> and a line feed
  when it is not, and leaves the node as it was; a leading \<open>PUT\<close> or \<open>REMOVE\<close> sends
  nothing; any other leading token, or no token at all, sends nothing and leaves the node
  as it was. In every case the socket is then closed, and nothing happens after that.
\<close>

theorem handleClient_response:
  "(case tokens req of
      [] \<Rightarrow> handleClient n req = (n, [Close])
    | c # args \<Rightarrow>
        (c = ''GET'' \<longrightarrow> handleClient n req =
           (n, [Send (case dataStore n (arg 0 args) of
                        Some v \<Rightarrow> ''VALUE '' @ v @ [CHR 0x0A]
                      | None \<Rightarrow> ''NOT_FOUND'' @ [CHR 0x0A]), Close]))
      \<and> (c = ''PUT'' \<or> c = ''REMOVE'' \<longrightarrow> snd (handleClient n req) = [Close])
      \<and> (c \<noteq> ''GET'' \<and> c \<noteq> ''PUT'' \<and> c \<noteq> ''REMOVE'' \<longrightarrow>
           handleClient n req = (n, [Close])))"
  by (simp add: handleClient_tokens split: list.splits option.splits)

lemma tokens_get_ibm: "tokens (''GET IBM'' @ [CHR 0x0A]) = [''GET'', ''IBM'']"
  by code_simp

lemma tokens_get_aapl: "tokens (''GET AAPL'' @ [CHR 0x0A]) = [''GET'', ''AAPL'']"
  by code_simp

lemma tokens_put_ibm: "tokens (''PUT IBM 1'' @ [CHR 0x0A]) = [''PUT'', ''IBM'', ''1'']"
  by code_simp

lemma tokens_remove_ibm: "tokens (''REMOVE IBM'' @ [CHR 0x0A]) = [''REMOVE'', ''IBM'']"
  by code_simp

lemma tokens_hello: "tokens ''HELLO'' = [''HELLO'']"
  by code_simp

theorem handleClient_response_witness:
  "handleClient \<lparr>dataStore = [''IBM'' \<mapsto> ''140.25''], wal = []\<rparr> (''GET IBM'' @ [CHR 0x0A])
     = (\<lparr>dataStore = [''IBM'' \<mapsto> ''140.25''], wal = []\<rparr>,
        [Send (''VALUE 140.25'' @ [CHR 0x0A]), Close])
   \<and> handleClient \<lparr>dataStore = [''IBM'' \<mapsto> ''140.25''], wal = []\<rparr> (''GET AAPL'' @ [CHR 0x0A])
     = (\<lparr>dataStore = [''IBM'' \<mapsto> ''140.25''], wal = []\<rparr>,
        [Send (''NOT_FOUND'' @ [CHR 0x0A]), Close])
   \<and> snd (handleClient \<lparr>dataStore = [''IBM'' \<mapsto> ''140.25''], wal = []\<rparr>
        (''PUT IBM 1'' @ [CHR 0x0A])) = [Close]
   \<and> snd (handleClient \<lparr>dataStore = [''IBM'' \<mapsto> ''140.25''], wal = []\<rparr>
        (''REMOVE IBM'' @ [CHR 0x0A])) = [Close]
   \<and> handleClient \<lparr>dataStore = [''IBM'' \<mapsto> ''140.25''], wal = []\<rparr> ''HELLO''
     = (\<lparr>dataStore = [''IBM'' \<mapsto> ''140.25''], wal = []\<rparr>, [Close])"
  using
    handleClient_response [where req = "''GET IBM'' @ [CHR 0x0A]" and n = "\<lparr>dataStore = [''IBM'' \<mapsto> ''140.25''], wal = []\<rparr>"]
    handleClient_response [where req = "''GET AAPL'' @ [CHR 0x0A]" and n = "\<lparr>dataStore = [''IBM'' \<mapsto> ''140.25''], wal = []\<rparr>"]
    handleClient_response [where req = "''PUT IBM 1'' @ [CHR 0x0A]" and n = "\<lparr>dataStore = [''IBM'' \<mapsto> ''140.25''], wal = []\<rparr>"]
    handleClient_response [where req = "''REMOVE IBM'' @ [CHR 0x0A]" and n = "\<lparr>dataStore = [''IBM'' \<mapsto> ''140.25''], wal = []\<rparr>"]
    handleClient_response [where req = "''HELLO''" and n = "\<lparr>dataStore = [''IBM'' \<mapsto> ''140.25''], wal = []\<rparr>"]
  unfolding tokens_get_ibm tokens_get_aapl tokens_put_ibm tokens_remove_ibm tokens_hello
  by (simp add: arg_def)

text \<open>
  Claim C10. A \<open>PUT\<close> with arguments missing is not rejected: the handler calls \<open>put\<close>
  with each missing argument as the empty string, which changes the store and appends the
  record to the log. A \<open>REMOVE\<close> or a \<open>GET\<close> without argument works on the empty key.
\<close>

theorem handleClient_missing_arguments:
  "(tokens req = [''PUT''] \<longrightarrow>
      handleClient n req =
        (n\<lparr>dataStore := (dataStore n)([] \<mapsto> []),
           wal := wal n @ ''PUT '' @ '' '' @ [CHR 0x0A]\<rparr>, [Close]))
   \<and> (tokens req = [''PUT'', k] \<longrightarrow>
      handleClient n req =
        (n\<lparr>dataStore := (dataStore n)(k \<mapsto> []),
           wal := wal n @ ''PUT '' @ k @ '' '' @ [CHR 0x0A]\<rparr>, [Close]))
   \<and> (tokens req = [''REMOVE''] \<longrightarrow>
      handleClient n req =
        (n\<lparr>dataStore := (dataStore n)([] := None),
           wal := wal n @ ''REMOVE '' @ [CHR 0x0A]\<rparr>, [Close]))
   \<and> (tokens req = [''GET''] \<longrightarrow>
      handleClient n req =
        (n, [Send (case dataStore n [] of
                     Some v \<Rightarrow> ''VALUE '' @ v @ [CHR 0x0A]
                   | None \<Rightarrow> ''NOT_FOUND'' @ [CHR 0x0A]), Close]))"
  by (simp add: handleClient_tokens arg_def node_put_def removeKey_def put_def snd_remove
      logPut_def logRemove_def split: option.splits)


lemma tokens_put_only: "tokens (''PUT'' @ [CHR 0x0A]) = [''PUT'']"
  by code_simp

lemma tokens_put_key: "tokens (''PUT k'' @ [CHR 0x0A]) = [''PUT'', ''k'']"
  by code_simp

lemma tokens_remove_only: "tokens (''REMOVE'' @ [CHR 0x0A]) = [''REMOVE'']"
  by code_simp

lemma tokens_get_only: "tokens (''GET'' @ [CHR 0x0A]) = [''GET'']"
  by code_simp

theorem handleClient_missing_arguments_witness:
  "handleClient \<lparr>dataStore = Map.empty, wal = []\<rparr> (''PUT'' @ [CHR 0x0A])
     = (\<lparr>dataStore = [[] \<mapsto> []], wal = ''PUT  '' @ [CHR 0x0A]\<rparr>, [Close])
   \<and> handleClient \<lparr>dataStore = Map.empty, wal = []\<rparr> (''PUT k'' @ [CHR 0x0A])
     = (\<lparr>dataStore = [''k'' \<mapsto> []], wal = ''PUT k '' @ [CHR 0x0A]\<rparr>, [Close])
   \<and> handleClient \<lparr>dataStore = [[] \<mapsto> ''v''], wal = []\<rparr> (''REMOVE'' @ [CHR 0x0A])
     = (\<lparr>dataStore = Map.empty, wal = ''REMOVE '' @ [CHR 0x0A]\<rparr>, [Close])
   \<and> handleClient \<lparr>dataStore = [[] \<mapsto> ''v''], wal = []\<rparr> (''GET'' @ [CHR 0x0A])
     = (\<lparr>dataStore = [[] \<mapsto> ''v''], wal = []\<rparr>, [Send (''VALUE v'' @ [CHR 0x0A]), Close])"
  using
    handleClient_missing_arguments [where req = "''PUT'' @ [CHR 0x0A]" and n = "\<lparr>dataStore = Map.empty, wal = []\<rparr>" and k = "''k''"]
    handleClient_missing_arguments [where req = "''PUT k'' @ [CHR 0x0A]" and n = "\<lparr>dataStore = Map.empty, wal = []\<rparr>" and k = "''k''"]
    handleClient_missing_arguments [where req = "''REMOVE'' @ [CHR 0x0A]" and n = "\<lparr>dataStore = [[] \<mapsto> ''v''], wal = []\<rparr>" and k = "''k''"]
    handleClient_missing_arguments [where req = "''GET'' @ [CHR 0x0A]" and n = "\<lparr>dataStore = [[] \<mapsto> ''v''], wal = []\<rparr>" and k = "''k''"]
  unfolding tokens_put_only tokens_put_key tokens_remove_only tokens_get_only
  by simp


section \<open>Properties of the hash ring\<close>

lemma ring_ok_Nil: "ring_ok []"
  by (simp add: ring_ok_def)

lemma ring_ok_Cons: "ring_ok (p # r) \<longleftrightarrow> (\<forall>q \<in> set r. fst p < fst q) \<and> ring_ok r"
  by (auto simp: ring_ok_def)

lemma set_map_assign:
  "ring_ok r \<Longrightarrow> set (map_assign k v r) = insert (k, v) {p \<in> set r. fst p \<noteq> k}"
  by (induction r) (auto simp: ring_ok_Cons)

lemma ring_ok_map_assign: "ring_ok r \<Longrightarrow> ring_ok (map_assign k v r)"
proof (induction r)
  case Nil
  show ?case by (simp add: ring_ok_def)
next
  case (Cons p r)
  then have ok: "ring_ok r" and lt: "\<forall>q \<in> set r. fst p < fst q"
    by (simp_all add: ring_ok_Cons)
  show ?case
  proof (cases "k < fst p")
    case True
    with Cons.prems lt show ?thesis by (auto simp: ring_ok_Cons)
  next
    case False
    show ?thesis
    proof (cases "k = fst p")
      case True
      with ok lt show ?thesis by (auto simp: ring_ok_Cons)
    next
      case ne: False
      with False have "fst p < k" by auto
      with False ne ok lt Cons.IH show ?thesis
        by (auto simp: ring_ok_Cons set_map_assign)
    qed
  qed
qed

lemma set_map_erase: "set (map_erase k r) = {p \<in> set r. fst p \<noteq> k}"
  by (auto simp: map_erase_def)

lemma ring_ok_map_erase: "ring_ok r \<Longrightarrow> ring_ok (map_erase k r)"
  by (induction r) (auto simp: ring_ok_Cons map_erase_def)

lemma ring_ok_distinct: "ring_ok r \<Longrightarrow> distinct (map fst r)"
  by (simp add: ring_ok_def strict_sorted_iff)

lemma ring_ok_unique: "ring_ok r \<Longrightarrow> p \<in> set r \<Longrightarrow> q \<in> set r \<Longrightarrow> fst p = fst q \<Longrightarrow> p = q"
  using ring_ok_distinct [of r] by (metis eq_key_imp_eq_value prod.collapse)

lemma owner_point_unique:
  assumes "ring_ok r" "owner_point r h p" "owner_point r h q"
  shows "p = q"
proof -
  from assms(2,3) have "fst p = fst q"
    by (auto simp: owner_point_def split: if_splits intro: antisym)
  with assms show ?thesis by (auto simp: owner_point_def intro: ring_ok_unique)
qed

lemma lower_bound_owner:
  assumes "ring_ok r" "r \<noteq> []"
  shows "owner_point r h (case lower_bound h r of [] \<Rightarrow> hd r | p # _ \<Rightarrow> p)"
proof (cases "lower_bound h r")
  case Nil
  then have below: "\<forall>q \<in> set r. fst q < h"
    by (simp add: lower_bound_def)
  from assms obtain p r' where r: "r = p # r'" by (cases r) auto
  with assms(1) have "\<forall>q \<in> set r. fst p \<le> fst q" by (auto simp: ring_ok_Cons)
  with below r Nil show ?thesis by (auto simp: owner_point_def)
next
  case (Cons p rest)
  let ?pre = "takeWhile (\<lambda>p. fst p < h) r"
  from Cons have split: "r = ?pre @ p # rest"
    by (metis lower_bound_def takeWhile_dropWhile_id)
  have pre: "\<forall>q \<in> set ?pre. fst q < h" by (auto dest: set_takeWhileD)
  from Cons have hp: "h \<le> fst p"
    using hd_dropWhile [of "\<lambda>p. fst p < h" r] by (auto simp: lower_bound_def)
  from assms(1) split have "sorted_wrt (<) (map fst (?pre @ p # rest))"
    by (simp add: ring_ok_def)
  then have rest: "\<forall>q \<in> set rest. fst p < fst q"
    by (auto simp: sorted_wrt_append)
  have "\<forall>q \<in> set r. h \<le> fst q \<longrightarrow> fst p \<le> fst q"
  proof (intro ballI impI)
    fix q assume "q \<in> set r" "h \<le> fst q"
    then have "q \<in> set ?pre \<or> q = p \<or> q \<in> set rest" by (subst (asm) split) auto
    with pre rest \<open>h \<le> fst q\<close> show "fst p \<le> fst q" by auto
  qed
  moreover have "p \<in> set r" by (subst split) simp
  ultimately show ?thesis using hp Cons by (auto simp: owner_point_def)
qed

lemma getNode_owner:
  assumes "ring_ok r" "owner_point r (H key) p"
  shows "getNode H r key = snd p"
proof -
  from assms(2) have ne: "r \<noteq> []" by (auto simp: owner_point_def)
  let ?p = "case lower_bound (H key) r of [] \<Rightarrow> hd r | p # _ \<Rightarrow> p"
  from lower_bound_owner [OF assms(1) ne] have "owner_point r (H key) ?p" .
  then have "?p = p" using assms(2) by (rule owner_point_unique [OF assms(1)])
  moreover have "getNode H r key = snd ?p"
    using ne by (simp add: getNode_def split: list.splits)
  ultimately show ?thesis by simp
qed

lemma getNode_has_owner:
  assumes "ring_ok r" "r \<noteq> []"
  shows "\<exists>p. owner_point r (H key) p \<and> getNode H r key = snd p"
  using lower_bound_owner [OF assms] getNode_owner [OF assms(1)] by blast

lemma getNode_Nil: "getNode H [] key = []"
  by (simp add: getNode_def)


lemma owner_point_assign_back:
  assumes "owner_point r' h p" "set r' = insert (k, X) {q \<in> set r. fst q \<noteq> k}" "p \<noteq> (k, X)"
  shows "owner_point r h p"
proof -
  from assms have p: "p \<in> set r" "fst p \<noteq> k" by (auto simp: owner_point_def)
  show ?thesis
  proof (cases "\<exists>q \<in> set r'. h \<le> fst q")
    case True
    with assms(1) have hp: "h \<le> fst p" and least: "\<forall>q \<in> set r'. h \<le> fst q \<longrightarrow> fst p \<le> fst q"
      by (auto simp: owner_point_def)
    have "\<forall>q \<in> set r. h \<le> fst q \<longrightarrow> fst p \<le> fst q"
    proof (intro ballI impI)
      fix q assume q: "q \<in> set r" "h \<le> fst q"
      show "fst p \<le> fst q"
      proof (cases "fst q = k")
        case True
        with q least assms(2) show ?thesis by (auto dest!: bspec [of _ _ "(k, X)"])
      next
        case False
        with q assms(2) have "q \<in> set r'" by simp
        with q least show ?thesis by blast
      qed
    qed
    with p hp show ?thesis by (auto simp: owner_point_def)
  next
    case False
    with assms(1) have least: "\<forall>q \<in> set r'. fst p \<le> fst q"
      by (auto simp: owner_point_def)
    have none: "\<not> (\<exists>q \<in> set r. h \<le> fst q)"
    proof
      assume "\<exists>q \<in> set r. h \<le> fst q"
      then obtain q where q: "q \<in> set r" "h \<le> fst q" by blast
      show False
      proof (cases "fst q = k")
        case True
        with q False assms(2) show ?thesis by (auto dest!: bspec [of _ _ "(k, X)"])
      next
        case ne: False
        with q assms(2) have "q \<in> set r'" by simp
        with q False show ?thesis by blast
      qed
    qed
    have "\<forall>q \<in> set r. fst p \<le> fst q"
    proof
      fix q assume q: "q \<in> set r"
      show "fst p \<le> fst q"
      proof (cases "fst q = k")
        case True
        with least assms(2) show ?thesis by (auto dest!: bspec [of _ _ "(k, X)"])
      next
        case ne: False
        with q assms(2) have "q \<in> set r'" by simp
        with least show ?thesis by blast
      qed
    qed
    with p none show ?thesis by (auto simp: owner_point_def)
  qed
qed

lemma getNode_map_assign:
  assumes "ring_ok r"
  shows "getNode H (map_assign k X r) key = getNode H r key
       \<or> getNode H (map_assign k X r) key = X"
proof -
  let ?r' = "map_assign k X r"
  have ok': "ring_ok ?r'" using assms by (rule ring_ok_map_assign)
  have set': "set ?r' = insert (k, X) {q \<in> set r. fst q \<noteq> k}"
    using assms by (rule set_map_assign)
  then have "?r' \<noteq> []" by auto
  from getNode_has_owner [OF ok' this, of H key]
  obtain p where p: "owner_point ?r' (H key) p" "getNode H ?r' key = snd p" by blast
  show ?thesis
  proof (cases "p = (k, X)")
    case True
    with p show ?thesis by simp
  next
    case False
    from owner_point_assign_back [OF p(1) set' False] have "owner_point r (H key) p" .
    with assms have "getNode H r key = snd p" by (rule getNode_owner)
    with p show ?thesis by simp
  qed
qed

lemma owner_point_erase:
  assumes "owner_point r h p" "fst p \<noteq> k"
  shows "owner_point (map_erase k r) h p"
proof -
  from assms have p: "p \<in> set (map_erase k r)" by (auto simp: owner_point_def set_map_erase)
  show ?thesis
  proof (cases "\<exists>q \<in> set r. h \<le> fst q")
    case True
    with assms(1) have hp: "h \<le> fst p" and least: "\<forall>q \<in> set r. h \<le> fst q \<longrightarrow> fst p \<le> fst q"
      by (auto simp: owner_point_def)
    from p hp have "\<exists>q \<in> set (map_erase k r). h \<le> fst q" by blast
    with p hp least show ?thesis by (auto simp: owner_point_def set_map_erase)
  next
    case False
    with assms(1) have least: "\<forall>q \<in> set r. fst p \<le> fst q" by (auto simp: owner_point_def)
    from False have "\<not> (\<exists>q \<in> set (map_erase k r). h \<le> fst q)" by (auto simp: set_map_erase)
    with p least show ?thesis by (auto simp: owner_point_def set_map_erase)
  qed
qed

lemma getNode_map_erase:
  assumes "ring_ok r" "\<forall>n. (k, n) \<in> set r \<longrightarrow> n = X"
  shows "getNode H (map_erase k r) key = getNode H r key \<or> getNode H r key = X"
proof (cases "r = []")
  case True
  then show ?thesis by (simp add: map_erase_def)
next
  case False
  from getNode_has_owner [OF assms(1) False, of H key]
  obtain p where p: "owner_point r (H key) p" "getNode H r key = snd p" by blast
  show ?thesis
  proof (cases "fst p = k")
    case True
    from p(1) have "p \<in> set r" by (simp add: owner_point_def)
    with True assms(2) have "snd p = X" by (cases p) auto
    with p show ?thesis by simp
  next
    case False
    with p(1) have "owner_point (map_erase k r) (H key) p" by (rule owner_point_erase)
    with ring_ok_map_erase [OF assms(1)] have "getNode H (map_erase k r) key = snd p"
      by (rule getNode_owner)
    with p show ?thesis by simp
  qed
qed

text \<open>The loops of \<open>addNode\<close> and \<open>removeNode\<close>, over any list of keys.\<close>

lemma fold_assign_ok:
  "ring_ok r \<Longrightarrow> ring_ok (fold (\<lambda>i. map_assign (f i) X) is r)"
  by (induction "is" arbitrary: r) (simp_all add: ring_ok_map_assign)

lemma fold_erase_ok:
  "ring_ok r \<Longrightarrow> ring_ok (fold (\<lambda>i. map_erase (f i)) is r)"
  by (induction "is" arbitrary: r) (simp_all add: ring_ok_map_erase)

lemma fold_assign_set:
  "ring_ok r \<Longrightarrow>
   set (fold (\<lambda>i. map_assign (f i) X) is r)
     = {p \<in> set r. fst p \<notin> f ` set is} \<union> (\<lambda>i. (f i, X)) ` set is"
proof (induction "is" arbitrary: r)
  case Nil
  show ?case by simp
next
  case (Cons i "is")
  from Cons.prems have ok: "ring_ok (map_assign (f i) X r)" by (rule ring_ok_map_assign)
  show ?case
    using Cons.IH [OF ok] Cons.prems by (auto simp: set_map_assign)
qed

lemma fold_erase_set:
  "set (fold (\<lambda>i. map_erase (f i)) is r) = {p \<in> set r. fst p \<notin> f ` set is}"
  by (induction "is" arbitrary: r) (auto simp: set_map_erase)

lemma getNode_fold_assign:
  "ring_ok r \<Longrightarrow>
   getNode H (fold (\<lambda>i. map_assign (f i) X) is r) key = getNode H r key
   \<or> getNode H (fold (\<lambda>i. map_assign (f i) X) is r) key = X"
proof (induction "is" arbitrary: r)
  case Nil
  show ?case by simp
next
  case (Cons i "is")
  from Cons.prems have ok: "ring_ok (map_assign (f i) X r)" by (rule ring_ok_map_assign)
  from Cons.IH [OF ok] getNode_map_assign [OF Cons.prems, of H "f i" X key]
  show ?case by auto
qed

lemma getNode_fold_erase:
  "ring_ok r \<Longrightarrow> \<forall>i \<in> set is. \<forall>n. (f i, n) \<in> set r \<longrightarrow> n = X \<Longrightarrow>
   getNode H (fold (\<lambda>i. map_erase (f i)) is r) key = getNode H r key
   \<or> getNode H r key = X"
proof (induction "is" arbitrary: r)
  case Nil
  show ?case by simp
next
  case (Cons i "is")
  from Cons.prems(1) have ok: "ring_ok (map_erase (f i) r)" by (rule ring_ok_map_erase)
  from Cons.prems(2) have own: "\<forall>j \<in> set is. \<forall>n. (f j, n) \<in> set (map_erase (f i) r) \<longrightarrow> n = X"
    by (auto simp: set_map_erase)
  from Cons.prems(2) have here: "\<forall>n. (f i, n) \<in> set r \<longrightarrow> n = X" by simp
  from Cons.IH [OF ok own] getNode_map_erase [OF Cons.prems(1) here, of H key]
  show ?case by auto
qed


lemma replica_indices: "set [0..R - 1] = {0..<R}"
  by auto

lemma ring_ok_addNode: "ring_ok r \<Longrightarrow> ring_ok (addNode R H X r)"
  by (simp add: addNode_def fold_assign_ok)

lemma ring_ok_removeNode: "ring_ok r \<Longrightarrow> ring_ok (removeNode R H X r)"
  by (simp add: removeNode_def fold_erase_ok)

lemma set_addNode:
  "ring_ok r \<Longrightarrow>
   set (addNode R H X r)
     = {p \<in> set r. fst p \<notin> (\<lambda>i. H (replica X i)) ` {0..<R}}
       \<union> (\<lambda>i. (H (replica X i), X)) ` {0..<R}"
  unfolding addNode_def by (subst fold_assign_set) (simp_all only: replica_indices)

lemma set_removeNode:
  "set (removeNode R H X r) = {p \<in> set r. fst p \<notin> (\<lambda>i. H (replica X i)) ` {0..<R}}"
  unfolding removeNode_def by (subst fold_erase_set) (simp only: replica_indices)

text \<open>
  Claim C5. On a ring whose entries are in ascending key order (as those of a
  \<open>std::map\<close> are), \<open>getNode\<close> returns the empty string when the ring has no point;
  otherwise the name stored at the least point whose hash value is at least the hash of
  the key; and, when there is no such point, the name stored at the least point of all.
\<close>

theorem getNode_lookup:
  assumes "ring_ok r"
  shows "(r = [] \<longrightarrow> getNode H r key = [])
       \<and> (r \<noteq> [] \<and> (\<exists>p \<in> set r. H key \<le> fst p) \<longrightarrow>
            map_of r (Min {h \<in> fst ` set r. H key \<le> h}) = Some (getNode H r key))
       \<and> (r \<noteq> [] \<and> \<not> (\<exists>p \<in> set r. H key \<le> fst p) \<longrightarrow>
            map_of r (Min (fst ` set r)) = Some (getNode H r key))"
proof (cases "r = []")
  case True
  then show ?thesis by (simp add: getNode_Nil)
next
  case False
  from getNode_has_owner [OF assms False, of H key]
  obtain p where p: "owner_point r (H key) p" "getNode H r key = snd p" by blast
  then have mem: "p \<in> set r" by (simp add: owner_point_def)
  then have "(fst p, getNode H r key) \<in> set r" using p(2) by simp
  with ring_ok_distinct [OF assms] have look: "map_of r (fst p) = Some (getNode H r key)"
    by simp
  show ?thesis
  proof (cases "\<exists>q \<in> set r. H key \<le> fst q")
    case True
    with p(1) have "H key \<le> fst p" "\<forall>q \<in> set r. H key \<le> fst q \<longrightarrow> fst p \<le> fst q"
      by (auto simp: owner_point_def)
    with mem have "Min {h \<in> fst ` set r. H key \<le> h} = fst p"
      by (intro Min_eqI) auto
    with look True False show ?thesis by simp
  next
    case none: False
    with p(1) have "\<forall>q \<in> set r. fst p \<le> fst q" by (auto simp: owner_point_def)
    with mem have "Min (fst ` set r) = fst p" by (intro Min_eqI) auto
    with look none False show ?thesis by simp
  qed
qed

lemma points_of_nodes_Nil: "points_of_nodes R H []"
  by (simp add: points_of_nodes_def)

lemma points_of_nodes_addNode:
  assumes "ring_ok r" "points_of_nodes R H r"
  shows "points_of_nodes R H (addNode R H X r)"
  using assms(2) unfolding points_of_nodes_def set_addNode [OF assms(1)] by auto

lemma points_of_nodes_removeNode:
  "points_of_nodes R H r \<Longrightarrow> points_of_nodes R H (removeNode R H X r)"
  unfolding points_of_nodes_def set_removeNode by auto

lemma ring_step_invariant:
  "ring_ok r \<and> points_of_nodes R H r \<Longrightarrow>
   ring_ok (ring_step R H x r) \<and> points_of_nodes R H (ring_step R H x r)"
  by (cases x)
    (simp_all add: ring_ok_addNode ring_ok_removeNode points_of_nodes_addNode
      points_of_nodes_removeNode)

lemma ring_run_invariant:
  "ring_ok r \<and> points_of_nodes R H r \<Longrightarrow>
   ring_ok (ring_run R H ops r) \<and> points_of_nodes R H (ring_run R H ops r)"
proof (induction ops arbitrary: r)
  case Nil
  then show ?case by (simp add: ring_run_def)
next
  case (Cons x xs)
  from ring_step_invariant [OF Cons.prems] Cons.IH [of "ring_step R H x r"]
  show ?case by (simp add: ring_run_def)
qed

lemma removeNode_no_point:
  assumes "points_of_nodes R H r"
  shows "C \<notin> snd ` set (removeNode R H C r)"
proof
  assume "C \<in> snd ` set (removeNode R H C r)"
  then obtain h where h: "(h, C) \<in> set r" "h \<notin> (\<lambda>i. H (replica C i)) ` {0..<R}"
    by (auto simp: set_removeNode)
  from assms h(1) obtain i where "i \<in> {0..<R}" "h = H (replica C i)"
    by (fastforce simp: points_of_nodes_def)
  with h(2) show False by blast
qed

lemma ring_step_no_point:
  assumes "ring_ok r" "C \<notin> snd ` set r" "x \<noteq> AddNode C"
  shows "C \<notin> snd ` set (ring_step R H x r)"
proof (cases x)
  case (AddNode n)
  with assms(3) have "n \<noteq> C" by simp
  with assms(2) AddNode show ?thesis
    unfolding ring_step.simps AddNode set_addNode [OF assms(1)] by auto
next
  case (RemoveNode n)
  with assms(2) show ?thesis by (auto simp: set_removeNode)
qed

lemma ring_run_no_point:
  "ring_ok r \<and> points_of_nodes R H r \<Longrightarrow> C \<notin> snd ` set r \<Longrightarrow> AddNode C \<notin> set ops \<Longrightarrow>
   C \<notin> snd ` set (ring_run R H ops r)"
proof (induction ops arbitrary: r)
  case Nil
  then show ?case by (simp add: ring_run_def)
next
  case (Cons x xs)
  from Cons.prems have "x \<noteq> AddNode C" "AddNode C \<notin> set xs" by auto
  moreover from Cons.prems have "ring_ok r" by simp
  ultimately show ?case
    using Cons.IH [of "ring_step R H x r"] ring_step_invariant [OF Cons.prems(1), of x]
      ring_step_no_point [of r C x R H] Cons.prems(2)
    by (simp add: ring_run_def)
qed

lemma getNode_in_ring: "getNode H r key = [] \<or> getNode H r key \<in> snd ` set r"
proof (cases "r = []")
  case True
  then show ?thesis by (simp add: getNode_Nil)
next
  case False
  show ?thesis
  proof (cases "lower_bound (H key) r")
    case Nil
    with False show ?thesis by (simp add: getNode_def)
  next
    case (Cons p rest)
    then have "p \<in> set r"
      using set_dropWhileD [of p "\<lambda>p. fst p < H key" r] by (simp add: lower_bound_def)
    with False Cons show ?thesis by (simp add: getNode_def)
  qed
qed

lemma ring_run_append: "ring_run R H (xs @ ys) r = ring_run R H ys (ring_run R H xs r)"
  by (simp add: ring_run_def)

lemma ring_run_Cons: "ring_run R H (x # xs) r = ring_run R H xs (ring_step R H x r)"
  by (simp add: ring_run_def)

text \<open>
  Claim C3 (as amended). For a node name \<open>C\<close> that is not the empty string: after any run
  of \<open>addNode\<close> and \<open>removeNode\<close> calls on a new ring in which \<open>removeNode C\<close> occurs
  and no \<open>addNode C\<close> follows it, \<open>getNode\<close> does not return \<open>C\<close>, for every key.
\<close>

theorem removed_node_not_returned:
  assumes "C \<noteq> []" "AddNode C \<notin> set post"
  shows "getNode H (ring_run R H (pre @ RemoveNode C # post) []) key \<noteq> C"
proof -
  let ?r1 = "ring_run R H pre []"
  let ?r2 = "removeNode R H C ?r1"
  have inv1: "ring_ok ?r1 \<and> points_of_nodes R H ?r1"
    by (rule ring_run_invariant) (simp add: ring_ok_Nil points_of_nodes_Nil)
  then have inv2: "ring_ok ?r2 \<and> points_of_nodes R H ?r2"
    by (simp add: ring_ok_removeNode points_of_nodes_removeNode)
  from inv1 have "C \<notin> snd ` set ?r2" by (simp add: removeNode_no_point)
  then have "C \<notin> snd ` set (ring_run R H post ?r2)"
    using assms(2) by (rule ring_run_no_point [OF inv2])
  moreover have "ring_run R H (pre @ RemoveNode C # post) [] = ring_run R H post ?r2"
    by (simp add: ring_run_append ring_run_Cons)
  ultimately show ?thesis
    using getNode_in_ring [of H "ring_run R H post ?r2" key] assms(1) by force
qed

lemma ring_step_names:
  assumes "ring_ok r" "snd ` set r \<subseteq> S" "set (added_names [x]) \<subseteq> S"
  shows "snd ` set (ring_step R H x r) \<subseteq> S"
proof (cases x)
  case (AddNode n)
  with assms(3) have "n \<in> S" by simp
  with assms(2) AddNode show ?thesis
    unfolding AddNode ring_step.simps set_addNode [OF assms(1)] by auto
next
  case (RemoveNode n)
  with assms(2) show ?thesis by (auto simp: set_removeNode)
qed

lemma ring_step_ok: "ring_ok r \<Longrightarrow> ring_ok (ring_step R H x r)"
  by (cases x) (simp_all add: ring_ok_addNode ring_ok_removeNode)

lemma added_names_Cons: "set (added_names (x # ops)) = set (added_names [x]) \<union> set (added_names ops)"
  by (cases x) auto

lemma ring_run_names:
  "ring_ok r \<Longrightarrow> snd ` set r \<subseteq> S \<Longrightarrow> set (added_names ops) \<subseteq> S \<Longrightarrow>
   snd ` set (ring_run R H ops r) \<subseteq> S"
proof (induction ops arbitrary: r)
  case Nil
  then show ?case by (simp add: ring_run_def)
next
  case (Cons x xs)
  from Cons.prems(3) have here: "set (added_names [x]) \<subseteq> S" and rest: "set (added_names xs) \<subseteq> S"
    by (simp_all add: added_names_Cons [of x xs])
  from ring_step_names [OF Cons.prems(1,2) here]
  have "snd ` set (ring_step R H x r) \<subseteq> S" .
  from Cons.IH [OF ring_step_ok [OF Cons.prems(1)] this rest] show ?case
    by (simp add: ring_run_Cons)
qed

text \<open>
  On a ring built from the empty ring, a point at the hash of a replica name of \<open>X\<close> can
  only name another node if that node was added and has a replica name with this hash.
\<close>

lemma reachable_own_points:
  assumes "no_collision_with R H X (added_names ops)"
  shows "own_points R H X (ring_run R H ops [])"
  unfolding own_points_def
proof (intro ballI impI)
  fix p
  assume p: "p \<in> set (ring_run R H ops [])"
    and at: "fst p \<in> (\<lambda>i. H (replica X i)) ` {0..<R}"
  from at obtain i where i: "i \<in> {0..<R}" "fst p = H (replica X i)" by blast
  have "points_of_nodes R H (ring_run R H ops [])"
    using ring_run_invariant [of "[]" R H ops] by (simp add: ring_ok_Nil points_of_nodes_Nil)
  with p obtain j where j: "j \<in> {0..<R}" "fst p = H (replica (snd p) j)"
    by (auto simp: points_of_nodes_def)
  have "snd ` set (ring_run R H ops []) \<subseteq> set (added_names ops)"
    by (rule ring_run_names) (simp_all add: ring_ok_Nil)
  with p have "snd p \<in> set (added_names ops)" by blast
  with assms i j show "snd p = X" unfolding no_collision_with_def by metis
qed

lemma ring_ok_ring_run: "ring_ok (ring_run R H ops [])"
  using ring_run_invariant [of "[]" R H ops] by (simp add: ring_ok_Nil points_of_nodes_Nil)

text \<open>
  Claim C4 (as amended). On a ring in key order: if \<open>getNode\<close> of a key after
  \<open>addNode X\<close> differs from before, the new result is \<open>X\<close>; and, when every point of the
  ring that sits at the hash of one of the replica names of \<open>X\<close> is a point of \<open>X\<close>, if
  \<open>getNode\<close> of a key after \<open>removeNode X\<close> differs from before, the old result was \<open>X\<close>.
  That condition holds, and with it the conclusion, on every ring built from the empty
  ring by \<open>addNode\<close> and \<open>removeNode\<close> calls in which no added node other than \<open>X\<close> has
  a replica name with the same hash as a replica name of \<open>X\<close>.
\<close>

theorem membership_change_moves_own_keys:
  assumes "ring_ok r"
  shows "(getNode H (addNode R H X r) key \<noteq> getNode H r key \<longrightarrow>
            getNode H (addNode R H X r) key = X)
       \<and> (own_points R H X r \<longrightarrow>
            getNode H (removeNode R H X r) key \<noteq> getNode H r key \<longrightarrow>
            getNode H r key = X)
       \<and> (no_collision_with R H X (added_names ops) \<longrightarrow>
            getNode H (removeNode R H X (ring_run R H ops [])) key
              \<noteq> getNode H (ring_run R H ops []) key \<longrightarrow>
            getNode H (ring_run R H ops []) key = X)"
proof -
  have remove_part: "getNode H r' key = X"
    if ok: "ring_ok r'" and own: "own_points R H X r'"
      and diff: "getNode H (removeNode R H X r') key \<noteq> getNode H r' key" for r'
  proof -
    from own have "\<forall>i \<in> set [0..R - 1]. \<forall>n. (H (replica X i), n) \<in> set r' \<longrightarrow> n = X"
      unfolding own_points_def replica_indices by force
    from getNode_fold_erase [OF ok this, of H key] diff
    show ?thesis by (simp add: removeNode_def)
  qed
  have add_part: "getNode H (addNode R H X r) key = X"
    if "getNode H (addNode R H X r) key \<noteq> getNode H r key"
    using getNode_fold_assign [OF assms, of H "\<lambda>i. H (replica X i)" X "[0..R - 1]" key] that
    by (simp add: addNode_def)
  have built: "getNode H (ring_run R H ops []) key = X"
    if "no_collision_with R H X (added_names ops)"
      and "getNode H (removeNode R H X (ring_run R H ops [])) key
             \<noteq> getNode H (ring_run R H ops []) key"
    using remove_part [OF ring_ok_ring_run reachable_own_points [OF that(1)] that(2)] .
  from add_part remove_part [OF assms] built show ?thesis by blast
qed

lemma addNode_nodeA: "addNode 2 example_hash ''nodeA'' [] = [(7, ''nodeA'')]"
  by code_simp

lemma addNode_nodeBB:
  "addNode 2 example_hash ''nodeBB'' [(7, ''nodeA'')] = [(7, ''nodeA''), (8, ''nodeBB'')]"
  by code_simp

lemma removeNode_nodeBB:
  "removeNode 2 example_hash ''nodeBB'' [(7, ''nodeA''), (8, ''nodeBB'')] = [(7, ''nodeA'')]"
  by code_simp

lemma own_points_nodeBB:
  "own_points 2 example_hash ''nodeBB'' [(7, ''nodeA''), (8, ''nodeBB'')]"
  by code_simp

lemma getNode_before_nodeBB: "getNode example_hash [(7, ''nodeA'')] ''12345678'' = ''nodeA''"
  by code_simp

lemma getNode_after_nodeBB:
  "getNode example_hash [(7, ''nodeA''), (8, ''nodeBB'')] ''12345678'' = ''nodeBB''"
  by code_simp

lemma addNode_one: "addNode 1 H n r = map_assign (H (replica n 0)) n r"
  by (simp add: addNode_def upto.simps)

lemma removeNode_one: "removeNode 1 H n r = map_erase (H (replica n 0)) r"
  by (simp add: removeNode_def upto.simps)

lemma getNode_single: "getNode H [(h, n)] key = n"
  by (simp add: getNode_def lower_bound_def)

lemma one_replica: "{0..<(1::int)} = {0}"
  by auto

lemma std_hash_nodeA: "std_hash ''nodeA#0'' = 0xd89a74ee7a8b541d"
  by code_simp

lemma std_hash_nodeB: "std_hash ''nodeB#0'' = 0x7070fd6e7b7e8e54"
  by code_simp

lemma std_hash_IBM: "std_hash ''IBM'' = 0x3c5058648281a1fd"
  by code_simp

lemma replica_zero: "replica n 0 = n @ ''#0''"
  by code_simp

lemma no_collision_nodeB:
  "no_collision_with 1 std_hash ''nodeB'' (added_names [AddNode ''nodeA'', AddNode ''nodeB''])"
  by (simp add: no_collision_with_def one_replica replica_zero std_hash_nodeA std_hash_nodeB)

lemma ring_nodeA_nodeB:
  "ring_run 1 std_hash [AddNode ''nodeA'', AddNode ''nodeB''] []
     = [(0x7070fd6e7b7e8e54, ''nodeB''), (0xd89a74ee7a8b541d, ''nodeA'')]"
  by (simp add: ring_run_def addNode_one replica_zero std_hash_nodeA std_hash_nodeB)

lemma ring_nodeA_alone:
  "removeNode 1 std_hash ''nodeB'' [(0x7070fd6e7b7e8e54, ''nodeB''), (0xd89a74ee7a8b541d, ''nodeA'')]
     = [(0xd89a74ee7a8b541d, ''nodeA'')]"
  by (simp add: removeNode_one replica_zero std_hash_nodeB map_erase_def)

lemma getNode_IBM_nodeB:
  "getNode std_hash [(0x7070fd6e7b7e8e54, ''nodeB''), (0xd89a74ee7a8b541d, ''nodeA'')] ''IBM''
     = ''nodeB''"
  by (simp add: getNode_def lower_bound_def std_hash_IBM)

theorem membership_change_moves_own_keys_witness:
  "ring_ok [(7, ''nodeA'')]
   \<and> getNode example_hash (addNode 2 example_hash ''nodeBB'' [(7, ''nodeA'')]) ''12345678''
       \<noteq> getNode example_hash [(7, ''nodeA'')] ''12345678''
   \<and> getNode example_hash (addNode 2 example_hash ''nodeBB'' [(7, ''nodeA'')]) ''12345678''
       = ''nodeBB''
   \<and> ring_ok [(7, ''nodeA''), (8, ''nodeBB'')]
   \<and> own_points 2 example_hash ''nodeBB'' [(7, ''nodeA''), (8, ''nodeBB'')]
   \<and> getNode example_hash
        (removeNode 2 example_hash ''nodeBB'' [(7, ''nodeA''), (8, ''nodeBB'')]) ''12345678''
       \<noteq> getNode example_hash [(7, ''nodeA''), (8, ''nodeBB'')] ''12345678''
   \<and> getNode example_hash [(7, ''nodeA''), (8, ''nodeBB'')] ''12345678'' = ''nodeBB''
   \<and> no_collision_with 1 std_hash ''nodeB'' (added_names [AddNode ''nodeA'', AddNode ''nodeB''])
   \<and> getNode std_hash
        (removeNode 1 std_hash ''nodeB''
           (ring_run 1 std_hash [AddNode ''nodeA'', AddNode ''nodeB''] [])) ''IBM''
       \<noteq> getNode std_hash (ring_run 1 std_hash [AddNode ''nodeA'', AddNode ''nodeB''] []) ''IBM''
   \<and> getNode std_hash (ring_run 1 std_hash [AddNode ''nodeA'', AddNode ''nodeB''] []) ''IBM''
       = ''nodeB''"
proof -
  have ok1: "ring_ok [(7, ''nodeA'')]" by (simp add: ring_ok_def)
  have ok2: "ring_ok [(7, ''nodeA''), (8, ''nodeBB'')]" by (simp add: ring_ok_def)
  have d1: "getNode example_hash (addNode 2 example_hash ''nodeBB'' [(7, ''nodeA'')]) ''12345678''
       \<noteq> getNode example_hash [(7, ''nodeA'')] ''12345678''"
    by (simp add: addNode_nodeBB getNode_before_nodeBB getNode_after_nodeBB)
  have d2: "getNode example_hash
        (removeNode 2 example_hash ''nodeBB'' [(7, ''nodeA''), (8, ''nodeBB'')]) ''12345678''
       \<noteq> getNode example_hash [(7, ''nodeA''), (8, ''nodeBB'')] ''12345678''"
    by (simp add: removeNode_nodeBB getNode_before_nodeBB getNode_after_nodeBB)
  have d3: "getNode std_hash
        (removeNode 1 std_hash ''nodeB''
           (ring_run 1 std_hash [AddNode ''nodeA'', AddNode ''nodeB''] [])) ''IBM''
       \<noteq> getNode std_hash (ring_run 1 std_hash [AddNode ''nodeA'', AddNode ''nodeB''] []) ''IBM''"
    by (simp add: ring_nodeA_nodeB ring_nodeA_alone getNode_IBM_nodeB getNode_single)
  note t1 = membership_change_moves_own_keys [OF ok1, where H = example_hash and R = 2
      and X = "''nodeBB''" and key = "''12345678''" and ops = "[]"]
  note t2 = membership_change_moves_own_keys [OF ok2, where H = example_hash and R = 2
      and X = "''nodeBB''" and key = "''12345678''" and ops = "[]"]
  note t3 = membership_change_moves_own_keys [OF ok1, where H = std_hash and R = 1
      and X = "''nodeB''" and key = "''IBM''" and ops = "[AddNode ''nodeA'', AddNode ''nodeB'']"]
  note c1 = t1 [THEN conjunct1, THEN mp, OF d1]
  note c2 = t2 [THEN conjunct2, THEN conjunct1, THEN mp, OF own_points_nodeBB, THEN mp, OF d2]
  note c3 = t3 [THEN conjunct2, THEN conjunct2, THEN mp, OF no_collision_nodeB, THEN mp, OF d3]
  show ?thesis
    by (intro conjI ok1 ok2 d1 d2 d3 c1 c2 c3 own_points_nodeBB no_collision_nodeB)
qed

lemma hash_collision_exists:
  fixes H :: "string \<Rightarrow> size_t"
  shows "\<exists>X Y. X \<noteq> Y \<and> H (replica X 0) = H (replica Y 0)"
proof (rule ccontr)
  assume "\<not> ?thesis"
  then have "inj (\<lambda>X. H (replica X 0))" by (auto simp: inj_on_def)
  moreover have "finite (range (\<lambda>X. H (replica X 0)))" by simp
  ultimately have "finite (UNIV :: string set)" by (rule finite_imageD [rotated])
  then show False using infinite_UNIV_listI by blast
qed

text \<open>
  Whatever \<open>std::hash\<close> is, its values are 64 bits wide, so two node names have a first
  replica with the same hash; on a ring holding both, removing the one added first moves
  a key that the other one owned.
\<close>

lemma removeNode_moves_foreign_key:
  fixes H :: "string \<Rightarrow> size_t"
  shows "\<exists>X Y key. ring_ok (addNode 1 H Y (addNode 1 H X []))
     \<and> getNode H (removeNode 1 H X (addNode 1 H Y (addNode 1 H X []))) key
         \<noteq> getNode H (addNode 1 H Y (addNode 1 H X [])) key
     \<and> getNode H (addNode 1 H Y (addNode 1 H X [])) key \<noteq> X"
proof -
  from hash_collision_exists [of H]
  obtain A B where ab: "A \<noteq> B" "H (replica A 0) = H (replica B 0)" by blast
  define X where "X = (if B = [] then B else A)"
  define Y where "Y = (if B = [] then A else B)"
  from ab have xy: "X \<noteq> Y" "Y \<noteq> []" "H (replica X 0) = H (replica Y 0)"
    by (auto simp: X_def Y_def)
  have r: "addNode 1 H Y (addNode 1 H X []) = [(H (replica Y 0), Y)]"
    using xy(3) by (simp add: addNode_one)
  have "removeNode 1 H X [(H (replica Y 0), Y)] = []"
    using xy(3) by (simp add: removeNode_one map_erase_def)
  with r xy show ?thesis
    by (intro exI [of _ X] exI [of _ Y] exI [of _ "[]"])
      (simp add: getNode_single getNode_Nil ring_ok_def)
qed

text \<open>
  The second half of the claim as stated, for every ring, fails where replica names of two
  nodes have the same hash. With the GNU library's hash the names \<open>node_one5reC8I1s\<close> and
  \<open>node_two7x1wTrvI\<close> are such a pair: on the ring of one replica per node built by
  adding \<open>nodeA\<close> and then the two of them, removing the first erases the point of the
  second, and the key \<open>IBM\<close> moves from the second to \<open>nodeA\<close>.
\<close>

lemma std_hash_node_one: "std_hash ''node_one5reC8I1s#0'' = 0x41ce632ab548c646"
  by code_simp

lemma std_hash_node_two: "std_hash ''node_two7x1wTrvI#0'' = 0x41ce632ab548c646"
  by code_simp

lemma ring_three_nodes:
  "addNode 1 std_hash ''node_two7x1wTrvI''
     (addNode 1 std_hash ''node_one5reC8I1s'' (addNode 1 std_hash ''nodeA'' []))
     = [(0x41ce632ab548c646, ''node_two7x1wTrvI''), (0xd89a74ee7a8b541d, ''nodeA'')]"
  by (simp add: addNode_one replica_zero std_hash_nodeA std_hash_node_one std_hash_node_two)

lemma ring_after_removing_node_one:
  "removeNode 1 std_hash ''node_one5reC8I1s''
     [(0x41ce632ab548c646, ''node_two7x1wTrvI''), (0xd89a74ee7a8b541d, ''nodeA'')]
     = [(0xd89a74ee7a8b541d, ''nodeA'')]"
  by (simp add: removeNode_one replica_zero std_hash_node_one map_erase_def)

lemma getNode_IBM_node_two:
  "getNode std_hash
     [(0x41ce632ab548c646, ''node_two7x1wTrvI''), (0xd89a74ee7a8b541d, ''nodeA'')] ''IBM''
     = ''node_two7x1wTrvI''"
  by (simp add: getNode_def lower_bound_def std_hash_IBM)

theorem membership_change_counterexample:
  "ring_ok (addNode 1 std_hash ''node_two7x1wTrvI''
      (addNode 1 std_hash ''node_one5reC8I1s'' (addNode 1 std_hash ''nodeA'' [])))
   \<and> getNode std_hash
        (addNode 1 std_hash ''node_two7x1wTrvI''
          (addNode 1 std_hash ''node_one5reC8I1s'' (addNode 1 std_hash ''nodeA'' []))) ''IBM''
       = ''node_two7x1wTrvI''
   \<and> getNode std_hash
        (removeNode 1 std_hash ''node_one5reC8I1s''
          (addNode 1 std_hash ''node_two7x1wTrvI''
            (addNode 1 std_hash ''node_one5reC8I1s'' (addNode 1 std_hash ''nodeA'' [])))) ''IBM''
       = ''nodeA''
   \<and> getNode std_hash
        (removeNode 1 std_hash ''node_one5reC8I1s''
          (addNode 1 std_hash ''node_two7x1wTrvI''
            (addNode 1 std_hash ''node_one5reC8I1s'' (addNode 1 std_hash ''nodeA'' [])))) ''IBM''
       \<noteq> getNode std_hash
            (addNode 1 std_hash ''node_two7x1wTrvI''
              (addNode 1 std_hash ''node_one5reC8I1s'' (addNode 1 std_hash ''nodeA'' []))) ''IBM''
   \<and> getNode std_hash
        (addNode 1 std_hash ''node_two7x1wTrvI''
          (addNode 1 std_hash ''node_one5reC8I1s'' (addNode 1 std_hash ''nodeA'' []))) ''IBM''
       \<noteq> ''node_one5reC8I1s''"
  by (simp add: ring_three_nodes ring_after_removing_node_one getNode_IBM_node_two
      getNode_single ring_ok_def)

lemma ring_run_example:
  "getNode example_hash
     (ring_run 2 example_hash
        ([AddNode ''nodeA'', AddNode ''nodeBB''] @ RemoveNode ''nodeBB'' # [AddNode ''nodeCCC''])
        []) ''12345678'' = ''nodeCCC''"
  by code_simp

theorem removed_node_not_returned_witness:
  "''nodeBB'' \<noteq> []
   \<and> AddNode ''nodeBB'' \<notin> set [AddNode ''nodeCCC'']
   \<and> getNode example_hash
        (ring_run 2 example_hash
           ([AddNode ''nodeA'', AddNode ''nodeBB''] @ RemoveNode ''nodeBB'' # [AddNode ''nodeCCC''])
           []) ''12345678'' \<noteq> ''nodeBB''
   \<and> getNode example_hash
        (ring_run 2 example_hash
           ([AddNode ''nodeA'', AddNode ''nodeBB''] @ RemoveNode ''nodeBB'' # [AddNode ''nodeCCC''])
           []) ''12345678'' = ''nodeCCC''"
proof -
  have h1: "''nodeBB'' \<noteq> []" by simp
  have h2: "AddNode ''nodeBB'' \<notin> set [AddNode ''nodeCCC'']" by simp
  from removed_node_not_returned [OF h1 h2, of example_hash 2
      "[AddNode ''nodeA'', AddNode ''nodeBB'']" "''12345678''"] h1 h2 ring_run_example
  show ?thesis by blast
qed

text \<open>
  The claim as stated, for every node name, fails for the empty name: it is what
  \<open>getNode\<close> returns on a ring without points.
\<close>

lemma ring_run_empty_name:
  "getNode example_hash (ring_run 2 example_hash ([AddNode []] @ RemoveNode [] # []) []) ''KeyABC''
     = []"
  by code_simp

theorem removed_node_not_returned_counterexample:
  "AddNode [] \<notin> set []
   \<and> getNode example_hash (ring_run 2 example_hash ([AddNode []] @ RemoveNode [] # []) []) ''KeyABC''
       = []"
  using ring_run_empty_name by simp

lemma getNode_example_wrap:
  "getNode example_hash [(3, ''A''), (7, ''nodeX'')] ''LongerKey'' = ''A''"
  by code_simp

lemma getNode_example_next:
  "getNode example_hash [(3, ''A''), (7, ''nodeX'')] ''KeyABC'' = ''nodeX''"
  by code_simp

theorem getNode_lookup_witness:
  "ring_ok [(3, ''A''), (7, ''nodeX'')]
   \<and> getNode example_hash [] ''KeyABC'' = []
   \<and> (\<exists>p \<in> set [(3, ''A''), (7, ''nodeX'')]. example_hash ''KeyABC'' \<le> fst p)
   \<and> map_of [(3, ''A''), (7, ''nodeX'')]
        (Min {h \<in> fst ` set [(3, ''A''), (7, ''nodeX'')]. example_hash ''KeyABC'' \<le> h})
       = Some (getNode example_hash [(3, ''A''), (7, ''nodeX'')] ''KeyABC'')
   \<and> getNode example_hash [(3, ''A''), (7, ''nodeX'')] ''KeyABC'' = ''nodeX''
   \<and> \<not> (\<exists>p \<in> set [(3, ''A''), (7, ''nodeX'')]. example_hash ''LongerKey'' \<le> fst p)
   \<and> map_of [(3 :: size_t, ''A''), (7, ''nodeX'')]
        (Min (fst ` set [(3 :: size_t, ''A''), (7, ''nodeX'')]))
       = Some (getNode example_hash [(3, ''A''), (7, ''nodeX'')] ''LongerKey'')
   \<and> getNode example_hash [(3, ''A''), (7, ''nodeX'')] ''LongerKey'' = ''A''"
proof -
  have ok: "ring_ok [(3, ''A''), (7, ''nodeX'')]" by (simp add: ring_ok_def)
  have ok0: "ring_ok []" by (simp add: ring_ok_def)
  have a: "\<exists>p \<in> set [(3, ''A''), (7, ''nodeX'')]. example_hash ''KeyABC'' \<le> fst p"
    by (simp add: example_hash_def)
  have b: "\<not> (\<exists>p \<in> set [(3, ''A''), (7, ''nodeX'')]. example_hash ''LongerKey'' \<le> fst p)"
    by (simp add: example_hash_def)
  from getNode_lookup [OF ok, of example_hash "''KeyABC''"]
    getNode_lookup [OF ok, of example_hash "''LongerKey''"]
    getNode_lookup [OF ok0, of example_hash "''KeyABC''"]
    ok a b getNode_example_wrap getNode_example_next
  show ?thesis by (simp only: list.distinct simp_thms)
qed


section \<open>Properties of the ring buffer\<close>

lemma size_t_add_small: "a + b < 2 ^ 64 \<Longrightarrow> size_t_add a b = a + b"
  by (simp add: size_t_add_def)

lemma size_t_sub_small: "b \<le> a \<Longrightarrow> a < 2 ^ 64 \<Longrightarrow> size_t_sub a b = a - b"
proof -
  assume ba: "b \<le> a" and a: "a < 2 ^ 64"
  then have "a mod 2 ^ 64 = a" "b mod 2 ^ 64 = b" by simp_all
  moreover have "(a + 2 ^ 64 - b) mod 2 ^ 64 = (a - b + 2 ^ 64) mod 2 ^ 64"
    using ba by simp
  moreover have "\<dots> = a - b" using a by simp
  ultimately show ?thesis by (simp add: size_t_sub_def)
qed

lemma buffer_size_eq:
  assumes "Size + 1 < 2 ^ 64" "rb_ok Size rb"
  shows "buffer_size Size rb =
     (if tail rb \<le> head rb then head rb - tail rb else Size + 1 - (tail rb - head rb))"
proof -
  from assms have h: "head rb < 2 ^ 64" and t: "tail rb < 2 ^ 64"
    by (auto simp: rb_ok_def)
  show ?thesis
  proof (cases "tail rb \<le> head rb")
    case True
    with h show ?thesis by (simp add: buffer_size_def size_t_sub_small)
  next
    case False
    then have "size_t_sub (tail rb) (head rb) = tail rb - head rb"
      using t by (simp add: size_t_sub_small)
    moreover have "tail rb - head rb \<le> Size + 1" using assms by (auto simp: rb_ok_def)
    ultimately show ?thesis
      using False assms(1) by (simp add: buffer_size_def size_t_add_small size_t_sub_small)
  qed
qed

lemma next_index:
  assumes "Size + 1 < 2 ^ 64" "i \<le> Size"
  shows "size_t_add i 1 mod size_t_add Size 1 = (if i = Size then 0 else i + 1)"
proof -
  from assms have "size_t_add i 1 = i + 1" "size_t_add Size 1 = Size + 1"
    by (simp_all add: size_t_add_def)
  with assms(2) show ?thesis by simp
qed

lemma next_index_Suc:
  assumes "Size + 1 < 2 ^ 64" "i \<le> Size"
  shows "size_t_add i (Suc 0) mod size_t_add Size (Suc 0) = (if i = Size then 0 else i + 1)"
  using next_index [OF assms] by simp

lemma buffer_size_le: "Size + 1 < 2 ^ 64 \<Longrightarrow> rb_ok Size rb \<Longrightarrow> buffer_size Size rb \<le> Size"
  by (auto simp: buffer_size_eq rb_ok_def)

lemma push_full:
  assumes "Size + 1 < 2 ^ 64" "rb_ok Size rb" "buffer_size Size rb = Size"
  shows "push Size rb x = (False, rb)"
  using assms
  by (auto simp: push_def Let_def next_index_Suc buffer_size_eq rb_ok_def split: if_splits)

lemma push_room:
  assumes "Size + 1 < 2 ^ 64" "rb_ok Size rb" "buffer_size Size rb < Size"
  shows "fst (push Size rb x) \<and> rb_ok Size (snd (push Size rb x))
       \<and> buffer_size Size (snd (push Size rb x)) = buffer_size Size rb + 1"
proof -
  from assms(2) have h: "head rb \<le> Size" and t: "tail rb \<le> Size"
    and len: "length (buffer rb) = Size + 1"
    by (simp_all add: rb_ok_def)
  let ?nh = "if head rb = Size then 0 else head rb + 1"
  from assms have ne: "?nh \<noteq> tail rb"
    by (auto simp: buffer_size_eq split: if_splits)
  then have p: "push Size rb x = (True, rb\<lparr>buffer := (buffer rb)[head rb := x], head := ?nh\<rparr>)"
    using assms(1) h by (simp add: push_def Let_def next_index_Suc)
  have ok': "rb_ok Size (rb\<lparr>buffer := (buffer rb)[head rb := x], head := ?nh\<rparr>)"
    using h t len by (simp add: rb_ok_def)
  have "buffer_size Size (rb\<lparr>buffer := (buffer rb)[head rb := x], head := ?nh\<rparr>)
      = buffer_size Size rb + 1"
    using assms(3) h t ne
    by (simp add: buffer_size_eq [OF assms(1) ok'] buffer_size_eq [OF assms(1) assms(2)]
        split: if_splits)
  with p ok' show ?thesis by simp
qed

lemma pop_empty:
  assumes "Size + 1 < 2 ^ 64" "rb_ok Size rb" "buffer_size Size rb = 0"
  shows "pop Size rb item = (False, item, rb)"
  using assms
  by (auto simp: pop_def Let_def buffer_size_eq rb_ok_def split: if_splits)

lemma pop_some:
  assumes "Size + 1 < 2 ^ 64" "rb_ok Size rb" "0 < buffer_size Size rb"
  shows "fst (pop Size rb item) \<and> rb_ok Size (snd (snd (pop Size rb item)))
       \<and> buffer_size Size (snd (snd (pop Size rb item))) = buffer_size Size rb - 1"
proof -
  from assms(2) have h: "head rb \<le> Size" and t: "tail rb \<le> Size"
    and len: "length (buffer rb) = Size + 1"
    by (simp_all add: rb_ok_def)
  let ?nt = "if tail rb = Size then 0 else tail rb + 1"
  from assms have ne: "tail rb \<noteq> head rb"
    by (auto simp: buffer_size_eq split: if_splits)
  then have p: "pop Size rb item = (True, buffer rb ! tail rb, rb\<lparr>tail := ?nt\<rparr>)"
    using assms(1) t by (simp add: pop_def Let_def next_index_Suc)
  have ok': "rb_ok Size (rb\<lparr>tail := ?nt\<rparr>)"
    using h t len by (simp add: rb_ok_def)
  have "buffer_size Size (rb\<lparr>tail := ?nt\<rparr>) = buffer_size Size rb - 1"
    using assms(3) h t ne
    by (simp add: buffer_size_eq [OF assms(1) ok'] buffer_size_eq [OF assms(1) assms(2)]
        split: if_splits)
  with p ok' show ?thesis by simp
qed


lemma new_buffer_ok:
  "Size + 1 < 2 ^ 64 \<Longrightarrow> rb_ok Size (new_buffer Size d) \<and> buffer_size Size (new_buffer Size d) = 0"
proof -
  assume b: "Size + 1 < 2 ^ 64"
  then have ok: "rb_ok Size (new_buffer Size d)"
    by (simp add: rb_ok_def new_buffer_def size_t_add_def)
  from buffer_size_eq [OF b ok] ok show ?thesis by (simp add: new_buffer_def)
qed

lemma run_ops_append:
  "run_ops Size d (xs @ ys) rb =
     (fst (run_ops Size d xs rb) @ fst (run_ops Size d ys (snd (run_ops Size d xs rb))),
      snd (run_ops Size d ys (snd (run_ops Size d xs rb))))"
proof (induction xs arbitrary: rb)
  case Nil
  show ?case by simp
next
  case (Cons x xs)
  show ?case by (cases x) (simp_all add: Cons.IH Let_def)
qed

lemma run_pushes:
  assumes "Size + 1 < 2 ^ 64"
  shows "rb_ok Size rb \<Longrightarrow> buffer_size Size rb + length xs \<le> Size \<Longrightarrow>
     fst (run_ops Size d (map Push xs) rb) = replicate (length xs) True
     \<and> rb_ok Size (snd (run_ops Size d (map Push xs) rb))
     \<and> buffer_size Size (snd (run_ops Size d (map Push xs) rb)) = buffer_size Size rb + length xs"
proof (induction xs arbitrary: rb)
  case Nil
  then show ?case by simp
next
  case (Cons x xs)
  from Cons.prems have room: "buffer_size Size rb < Size" by simp
  from push_room [OF assms Cons.prems(1) room, of x]
  have p: "fst (push Size rb x)" "rb_ok Size (snd (push Size rb x))"
    "buffer_size Size (snd (push Size rb x)) = buffer_size Size rb + 1" by simp_all
  from Cons.prems(2) p(3) have "buffer_size Size (snd (push Size rb x)) + length xs \<le> Size"
    by simp
  from Cons.IH [OF p(2) this] p show ?case by (simp add: Let_def)
qed

lemma run_ops_counts:
  assumes "Size + 1 < 2 ^ 64"
  shows "rb_ok Size rb \<Longrightarrow>
     rb_ok Size (snd (run_ops Size d ops rb))
     \<and> buffer_size Size (snd (run_ops Size d ops rb)) + pops_ok ops (fst (run_ops Size d ops rb))
         = buffer_size Size rb + pushes_ok ops (fst (run_ops Size d ops rb))"
proof (induction ops arbitrary: rb)
  case Nil
  then show ?case by (simp add: pushes_ok_def pops_ok_def)
next
  case (Cons x ops)
  show ?case
  proof (cases x)
    case (Push v)
    show ?thesis
    proof (cases "buffer_size Size rb < Size")
      case True
      from push_room [OF assms Cons.prems True, of v]
      have p: "fst (push Size rb v)" "rb_ok Size (snd (push Size rb v))"
        "buffer_size Size (snd (push Size rb v)) = buffer_size Size rb + 1" by simp_all
      from Cons.IH [OF p(2)] p Push show ?thesis
        by (simp add: Let_def pushes_ok_def pops_ok_def)
    next
      case False
      with buffer_size_le [OF assms Cons.prems] have "buffer_size Size rb = Size" by simp
      from push_full [OF assms Cons.prems this, of v] Cons.IH [OF Cons.prems] Push
      show ?thesis by (simp add: Let_def pushes_ok_def pops_ok_def)
    qed
  next
    case Pop
    show ?thesis
    proof (cases "0 < buffer_size Size rb")
      case True
      from pop_some [OF assms Cons.prems True, of d]
      have p: "fst (pop Size rb d)" "rb_ok Size (snd (snd (pop Size rb d)))"
        "buffer_size Size (snd (snd (pop Size rb d))) = buffer_size Size rb - 1" by simp_all
      from Cons.IH [OF p(2)] p True Pop show ?thesis
        by (simp add: Let_def pushes_ok_def pops_ok_def)
    next
      case False
      then have "buffer_size Size rb = 0" by simp
      from pop_empty [OF assms Cons.prems this, of d] Cons.IH [OF Cons.prems] Pop
      show ?thesis by (simp add: Let_def pushes_ok_def pops_ok_def)
    qed
  qed
qed

lemma push_after_pop:
  assumes "Size + 1 < 2 ^ 64" "rb_ok Size rb" "fst (pop Size rb item)"
  shows "fst (push Size (snd (snd (pop Size rb item))) x)"
proof -
  have pos: "0 < buffer_size Size rb"
  proof (rule ccontr)
    assume "\<not> 0 < buffer_size Size rb"
    then have "buffer_size Size rb = 0" by simp
    from pop_empty [OF assms(1,2) this, of item] assms(3) show False by simp
  qed
  from pop_some [OF assms(1,2) pos, of item]
  have ok: "rb_ok Size (snd (snd (pop Size rb item)))"
    and sz: "buffer_size Size (snd (snd (pop Size rb item))) = buffer_size Size rb - 1"
    by simp_all
  from sz pos buffer_size_le [OF assms(1,2)]
  have "buffer_size Size (snd (snd (pop Size rb item))) < Size" by simp
  from push_room [OF assms(1) ok this, of x] show ?thesis by simp
qed

lemma fill_then_push:
  assumes "Size + 1 < 2 ^ 64" "length xs = Size"
  shows "fst (run_ops Size d (map Push xs @ [Push y]) (new_buffer Size d))
       = replicate Size True @ [False]"
proof -
  let ?full = "snd (run_ops Size d (map Push xs) (new_buffer Size d))"
  from new_buffer_ok [OF assms(1), of d]
  have n: "rb_ok Size (new_buffer Size d)" "buffer_size Size (new_buffer Size d) = 0"
    by simp_all
  from run_pushes [OF assms(1) n(1), of xs d] n(2) assms(2)
  have f: "fst (run_ops Size d (map Push xs) (new_buffer Size d)) = replicate Size True"
    "rb_ok Size ?full" "buffer_size Size ?full = Size" by simp_all
  from push_full [OF assms(1) f(2,3), of y] f(1) show ?thesis
    by (simp add: run_ops_append Let_def)
qed

lemma fill_pop_push_push:
  assumes "Size + 1 < 2 ^ 64" "length xs = Size" "0 < Size"
  shows "fst (run_ops Size d (map Push xs @ [Pop, Push y, Push z]) (new_buffer Size d))
       = replicate Size True @ [True, True, False]"
proof -
  let ?full = "snd (run_ops Size d (map Push xs) (new_buffer Size d))"
  from new_buffer_ok [OF assms(1), of d]
  have n: "rb_ok Size (new_buffer Size d)" "buffer_size Size (new_buffer Size d) = 0"
    by simp_all
  from run_pushes [OF assms(1) n(1), of xs d] n(2) assms(2)
  have f: "fst (run_ops Size d (map Push xs) (new_buffer Size d)) = replicate Size True"
    "rb_ok Size ?full" "buffer_size Size ?full = Size" by simp_all
  let ?p = "snd (snd (pop Size ?full d))"
  from f(3) assms(3) have pos: "0 < buffer_size Size ?full" by simp
  from pop_some [OF assms(1) f(2) pos, of d] f(3)
  have p: "fst (pop Size ?full d)" "rb_ok Size ?p" "buffer_size Size ?p = Size - 1" by simp_all
  from p(3) assms(3) have room: "buffer_size Size ?p < Size" by simp
  let ?q = "snd (push Size ?p y)"
  from push_room [OF assms(1) p(2) room, of y] p(3) assms(3)
  have q: "fst (push Size ?p y)" "rb_ok Size ?q" "buffer_size Size ?q = Size" by simp_all
  from push_full [OF assms(1) q(2,3), of z] have "\<not> fst (push Size ?q z)" by simp
  with f(1) p(1) q(1) show ?thesis by (simp add: run_ops_append Let_def)
qed

text \<open>
  Claim C8. For a buffer of capacity \<open>Size\<close> (with \<open>Size + 1\<close> representable as a
  \<open>size_t\<close>) used by one thread: from the new buffer, \<open>Size\<close> pushes in a row return
  true and the next one returns false; in any state within the array bounds, after a
  \<open>pop\<close> that returned true the next \<open>push\<close> returns true, and on the full buffer
  exactly one more push succeeds after one pop; and after any run of pushes and pops from
  the new buffer, the successful pops are at most the successful pushes and \<open>size()\<close>
  is their difference.
\<close>

theorem ring_buffer_capacity:
  assumes "Size + 1 < 2 ^ 64"
  shows "(length xs = Size \<longrightarrow>
            fst (run_ops Size d (map Push xs @ [Push y]) (new_buffer Size d))
              = replicate Size True @ [False])
       \<and> (rb_ok Size rb \<and> fst (pop Size rb item) \<longrightarrow>
            fst (push Size (snd (snd (pop Size rb item))) x))
       \<and> (length xs = Size \<and> 0 < Size \<longrightarrow>
            fst (run_ops Size d (map Push xs @ [Pop, Push y, Push z]) (new_buffer Size d))
              = replicate Size True @ [True, True, False])
       \<and> pops_ok ops (fst (run_ops Size d ops (new_buffer Size d)))
            \<le> pushes_ok ops (fst (run_ops Size d ops (new_buffer Size d)))
       \<and> buffer_size Size (snd (run_ops Size d ops (new_buffer Size d)))
            = pushes_ok ops (fst (run_ops Size d ops (new_buffer Size d)))
              - pops_ok ops (fst (run_ops Size d ops (new_buffer Size d)))"
proof -
  from new_buffer_ok [OF assms, of d]
  have n: "rb_ok Size (new_buffer Size d)" "buffer_size Size (new_buffer Size d) = 0"
    by simp_all
  from run_ops_counts [OF assms n(1), of d ops] n(2)
  have "buffer_size Size (snd (run_ops Size d ops (new_buffer Size d)))
          + pops_ok ops (fst (run_ops Size d ops (new_buffer Size d)))
        = pushes_ok ops (fst (run_ops Size d ops (new_buffer Size d)))" by simp
  then have "pops_ok ops (fst (run_ops Size d ops (new_buffer Size d)))
            \<le> pushes_ok ops (fst (run_ops Size d ops (new_buffer Size d)))"
    and "buffer_size Size (snd (run_ops Size d ops (new_buffer Size d)))
            = pushes_ok ops (fst (run_ops Size d ops (new_buffer Size d)))
              - pops_ok ops (fst (run_ops Size d ops (new_buffer Size d)))"
    by linarith+
  then show ?thesis
    using fill_then_push [OF assms, of xs d y] push_after_pop [OF assms, of rb item x]
      fill_pop_push_push [OF assms, of xs d y z]
    by blast
qed


lemma full_buffer_example:
  "rb_ok 3 \<lparr>buffer = [1, 2, 3, 0 :: int], head = 3, tail = 0\<rparr>
   \<and> fst (pop 3 \<lparr>buffer = [1, 2, 3, 0 :: int], head = 3, tail = 0\<rparr> 0)"
  by (simp add: rb_ok_def pop_def size_t_add_small)

lemma new_buffer_example:
  "new_buffer 5 (0 :: int) = \<lparr>buffer = [0, 0, 0, 0, 0, 0], head = 0, tail = 0\<rparr>"
  by (simp add: new_buffer_def size_t_add_small, simp add: eval_nat_numeral)

lemma push_pop_example:
  "buffer_size 5 (snd (run_ops 5 (0 :: int) [Push 10, Push 20, Pop] (new_buffer 5 0))) = 1"
  by (simp add: new_buffer_example push_def pop_def buffer_size_def size_t_add_small
      size_t_sub_small Let_def)

theorem ring_buffer_capacity_witness:
  "(3 :: nat) + 1 < 2 ^ 64
   \<and> length [1, 2, 3 :: int] = 3
   \<and> fst (run_ops 3 0 (map Push [1, 2, 3 :: int] @ [Push 4]) (new_buffer 3 0))
       = replicate 3 True @ [False]
   \<and> rb_ok 3 \<lparr>buffer = [1, 2, 3, 0 :: int], head = 3, tail = 0\<rparr>
   \<and> fst (pop 3 \<lparr>buffer = [1, 2, 3, 0 :: int], head = 3, tail = 0\<rparr> 0)
   \<and> fst (push 3 (snd (snd (pop 3 \<lparr>buffer = [1, 2, 3, 0 :: int], head = 3, tail = 0\<rparr> 0))) 4)
   \<and> fst (run_ops 3 0 (map Push [1, 2, 3 :: int] @ [Pop, Push 4, Push 5]) (new_buffer 3 0))
       = replicate 3 True @ [True, True, False]
   \<and> buffer_size 5 (snd (run_ops 5 (0 :: int) [Push 10, Push 20, Pop] (new_buffer 5 0)))
       = pushes_ok [Push (10 :: int), Push 20, Pop]
           (fst (run_ops 5 (0 :: int) [Push 10, Push 20, Pop] (new_buffer 5 0)))
         - pops_ok [Push (10 :: int), Push 20, Pop]
           (fst (run_ops 5 (0 :: int) [Push 10, Push 20, Pop] (new_buffer 5 0)))
   \<and> buffer_size 5 (snd (run_ops 5 (0 :: int) [Push 10, Push 20, Pop] (new_buffer 5 0))) = 1"
proof -
  have b3: "(3 :: nat) + 1 < 2 ^ 64" by simp
  have b5: "(5 :: nat) + 1 < 2 ^ 64" by simp
  have len: "length [1, 2, 3 :: int] = 3" by simp
  have pos: "0 < (3 :: nat)" by simp
  note t3 = ring_buffer_capacity [OF b3, where xs = "[1, 2, 3 :: int]" and d = 0 and y = 4
      and z = 5 and rb = "\<lparr>buffer = [1, 2, 3, 0 :: int], head = 3, tail = 0\<rparr>" and item = 0
      and x = 4 and ops = "[]"]
  note t5 = ring_buffer_capacity [OF b5, where d = "0 :: int" and xs = "[]" and y = 0 and z = 0
      and rb = "new_buffer 5 0" and item = 0 and x = 0
      and ops = "[Push (10 :: int), Push 20, Pop]"]
  note c1 = t3 [THEN conjunct1, THEN mp, OF len]
  note c2 = t3 [THEN conjunct2, THEN conjunct1, THEN mp, OF full_buffer_example]
  note c3 = t3 [THEN conjunct2, THEN conjunct2, THEN conjunct1, THEN mp, OF conjI [OF len pos]]
  note c4 = t5 [THEN conjunct2, THEN conjunct2, THEN conjunct2, THEN conjunct2]
  show ?thesis
    by (intro conjI b3 len c1 c2 c3 c4 push_pop_example
        full_buffer_example [THEN conjunct1] full_buffer_example [THEN conjunct2])
qed


section \<open>Properties of the thread pool\<close>

text \<open>
  Claim C9. \<open>enqueue\<close> on a pool whose stop flag is set, as it is once the destructor
  has begun, throws the runtime error \<open>enqueue on stopped ThreadPool\<close> and queues
  nothing; on a pool that is not stopped it appends the task to the queue.
\<close>

theorem enqueue_on_stopped_pool:
  "(stop p \<longrightarrow> enqueue p task = Inl (RuntimeError ''enqueue on stopped ThreadPool''))
   \<and> enqueue (begin_shutdown p) task = Inl (RuntimeError ''enqueue on stopped ThreadPool'')
   \<and> (\<not> stop p \<longrightarrow> enqueue p task = Inr (p\<lparr>tasks := tasks p @ [task]\<rparr>))"
  by (simp add: enqueue_def begin_shutdown_def)

theorem enqueue_on_stopped_pool_witness:
  "stop \<lparr>tasks = [1 :: nat], stop = True\<rparr>
   \<and> enqueue \<lparr>tasks = [1 :: nat], stop = True\<rparr> 2
       = Inl (RuntimeError ''enqueue on stopped ThreadPool'')
   \<and> enqueue (begin_shutdown (new_pool :: nat thread_pool)) 2
       = Inl (RuntimeError ''enqueue on stopped ThreadPool'')
   \<and> \<not> stop (new_pool :: nat thread_pool)
   \<and> enqueue (new_pool :: nat thread_pool) 2 = Inr \<lparr>tasks = [2], stop = False\<rparr>"
  using enqueue_on_stopped_pool [of "\<lparr>tasks = [1 :: nat], stop = True\<rparr>" 2]
    enqueue_on_stopped_pool [of "new_pool :: nat thread_pool" 2]
  by (simp add: new_pool_def)

end
